theory Spec2Isabelle
  imports Main
begin

section \<open>Data model\<close>

text \<open>
  The cluster upgrader of \<^verbatim>\<open>tools/upgrader/util/upgrade.go\<close>. The types of the
  cluster API are declared outside the sources at hand; a machine and a node carry the
  fields the upgrader reads or writes:
  \<^item> \<open>Name\<close> is \<^verbatim>\<open>machine.Name\<close>,
  \<^item> \<open>Kubelet\<close> and \<open>ControlPlane\<close> are \<^verbatim>\<open>machine.Spec.Versions.Kubelet\<close> and
    \<^verbatim>\<open>machine.Spec.Versions.ControlPlane\<close>,
  \<^item> \<open>NodeRef\<close> is \<^verbatim>\<open>machine.Status.NodeRef\<close>: \<open>None\<close> for the nil pointer, otherwise
    the referenced node's name,
  \<^item> \<open>Conditions\<close> is \<^verbatim>\<open>node.Status.Conditions\<close> (type and status of each condition),
  \<^item> \<open>KubeletVersion\<close> is \<^verbatim>\<open>node.Status.NodeInfo.KubeletVersion\<close>.
\<close>

record machine =
  Name :: string
  Kubelet :: string
  ControlPlane :: string
  NodeRef :: "string option"

record node =
  Conditions :: "(string \<times> string) list"
  KubeletVersion :: string

text \<open>
  Go errors: an error handed back by a client call (opaque, carried by its message), an
  error built by \<^verbatim>\<open>fmt.Errorf\<close>, and the timeout error of \<^verbatim>\<open>wait.Poll\<close>.
\<close>

datatype error = ClientError string | Errorf string | ErrWaitTimeout

text \<open>
  \<^verbatim>\<open>UpgradeCluster\<close> runs on the calling goroutine (\<open>Main\<close>) and starts one goroutine
  per worker machine (\<open>Task i\<close>, numbered in launch order).
\<close>

datatype actor = Main | Task nat

text \<open>The calls made on the machine interface and on the node client.\<close>

datatype call = CList | CGet string | CUpdate machine | CNodeGet string

type_synonym history = "(actor \<times> call) list"

text \<open>
  Everything outside the file is a parameter. The cluster answers a call depending on all
  the calls made before it, so that a machine or a node may change between two polls;
  a call either fails with an error or returns its value. \<open>IsMaster\<close> and \<open>IsNodeReady\<close>
  are the predicates of package \<^verbatim>\<open>util\<close>, whose source is not at hand; \<open>pollChecks\<close> is
  the number of checks \<^verbatim>\<open>wait.Poll(5*time.Second, 10*time.Minute, ...)\<close> performs before
  it gives up, and \<open>pollStrict\<close> says whether it stops on an error of its condition.
  \<open>getOnError\<close> is the machine pointer that \<^verbatim>\<open>Get\<close> hands back together with an error:
  \<open>None\<close> for nil, otherwise the machine it points to.
\<close>

record world =
  IsMaster :: "machine \<Rightarrow> bool"
  IsNodeReady :: "node \<Rightarrow> bool"
  machList :: "history \<Rightarrow> error + machine list"
  machGet :: "history \<Rightarrow> string \<Rightarrow> error + machine"
  machUpdate :: "history \<Rightarrow> machine \<Rightarrow> error + machine"
  nodesGet :: "history \<Rightarrow> string \<Rightarrow> error + node"
  pollChecks :: nat
  pollStrict :: bool
  getOnError :: "history \<Rightarrow> string \<Rightarrow> machine option"

text \<open>
  The two values of \<^verbatim>\<open>machInterface.Get\<close> as Go returns them, the pointer and the error.
\<close>

definition getResult :: "world \<Rightarrow> history \<Rightarrow> string \<Rightarrow> machine option \<times> error option" where
  "getResult w h name =
     (case machGet w h name of
        Inr mach \<Rightarrow> (Some mach, None)
      | Inl e \<Rightarrow> (getOnError w h name, Some e))"

section \<open>The readiness check\<close>

text \<open>
  \<^verbatim>\<open>checkMachineReady\<close> (lines 56-82), run by actor \<open>a\<close> after the calls \<open>h\<close>. The result
  is the pair the Go function returns, with the history extended by the calls it made.
\<close>

definition checkMachineReady ::
    "world \<Rightarrow> actor \<Rightarrow> string \<Rightarrow> string \<Rightarrow> history \<Rightarrow> (bool \<times> error option) \<times> history" where
  "checkMachineReady w a machineName kubeVersion h =
     (let h1 = h @ [(a, CGet machineName)] in
      case machGet w h machineName of
        Inl e \<Rightarrow> ((False, Some e), h1)
      | Inr machine \<Rightarrow>
          (case NodeRef machine of
             None \<Rightarrow> ((False, None), h1)
           | Some ref \<Rightarrow>
               (let h2 = h1 @ [(a, CNodeGet ref)] in
                case nodesGet w h1 ref of
                  Inl e \<Rightarrow> ((False, Some e), h2)
                | Inr node \<Rightarrow>
                    if \<not> IsNodeReady w node then ((False, None), h2)
                    else if KubeletVersion node = ''v'' @ kubeVersion then ((True, None), h2)
                    else ((False, None), h2))))"

section \<open>Polling\<close>

text \<open>
  The function literal handed to \<^verbatim>\<open>wait.Poll\<close> (lines 114-121, and again lines 146-153):
  it runs the check and hides its error.
\<close>

definition ignoreErr ::
    "('s \<Rightarrow> (bool \<times> error option) \<times> 's) \<Rightarrow> 's \<Rightarrow> (bool \<times> error option) \<times> 's" where
  "ignoreErr check s =
     (case check s of
        ((ready, Some e), s') \<Rightarrow> ((False, None), s')
      | ((ready, None), s') \<Rightarrow> ((ready, None), s'))"

text \<open>
  Modelled from the spec: the outcome of one check inside \<^verbatim>\<open>wait.Poll\<close>, which belongs
  to the vendored package \<^verbatim>\<open>k8s.io/apimachinery/pkg/util/wait\<close> and is not among the
  sources. Section 4.2: only ready ends the poll with success. The result is \<open>Some r\<close>
  when the poll ends with \<open>r\<close> and \<open>None\<close> when it goes on. The specification lets the
  poller as a whole swallow an error of the predicate, which in the source is the work
  of the function literal above; what the library itself does with an error is
  therefore left open: with \<open>strict\<close> the error ends the poll and is returned, without
  it the error counts as not ready.
\<close>

fun poll_attempt :: "bool \<Rightarrow> bool \<times> error option \<Rightarrow> error option option" where
  "poll_attempt strict (ready, Some e) = (if strict then Some (Some e) else None)"
| "poll_attempt strict (True, None) = Some None"
| "poll_attempt strict (False, None) = None"

text \<open>
  Modelled from the spec: \<^verbatim>\<open>wait.Poll\<close>, of the same package and not among the sources.
  Section 4.2: the predicate is invoked again and again until it returns ready or the
  deadline is over; the breach of the deadline is reported as a timeout. The deadline
  is the number \<open>n\<close> of checks that fit into it; the time between two checks is not
  modelled. The condition works on a state \<open>s\<close>, which it may change.
\<close>

fun wait_Poll ::
    "bool \<Rightarrow> nat \<Rightarrow> ('s \<Rightarrow> (bool \<times> error option) \<times> 's) \<Rightarrow> 's \<Rightarrow> error option \<times> 's" where
  "wait_Poll strict 0 condition s = (Some ErrWaitTimeout, s)"
| "wait_Poll strict (Suc n) condition s =
     (case condition s of
        (r, s') \<Rightarrow>
          (case poll_attempt strict r of
             Some res \<Rightarrow> (res, s')
           | None \<Rightarrow> wait_Poll strict n condition s'))"

text \<open>The state in which the \<open>k\<close>-th check of a poll runs, counting from 0.\<close>

fun state_at :: "('s \<Rightarrow> 'r \<times> 's) \<Rightarrow> nat \<Rightarrow> 's \<Rightarrow> 's" where
  "state_at check 0 s = s"
| "state_at check (Suc k) s = state_at check k (snd (check s))"

section \<open>The control plane\<close>

text \<open>
  Lines 110-122, for the machine \<open>master\<close> found by the scan: the two version fields are
  set on the copy held by the loop variable, the copy is submitted, and the poll runs on
  the name of the machine that \<^verbatim>\<open>Update\<close> returned. The result is the value of the
  variable \<^verbatim>\<open>err\<close> that line 112 declares with \<^verbatim>\<open>:=\<close> inside the else block.
\<close>

definition upgradeControlPlane ::
    "world \<Rightarrow> string \<Rightarrow> machine \<Rightarrow> history \<Rightarrow> error option \<times> history" where
  "upgradeControlPlane w kubeversion master h =
     (let master' = master\<lparr>Kubelet := kubeversion, ControlPlane := kubeversion\<rparr>;
          h1 = h @ [(Main, CUpdate master')] in
      case machUpdate w h master' of
        Inl e \<Rightarrow> (Some e, h1)
      | Inr new_machine \<Rightarrow>
          wait_Poll (pollStrict w) (pollChecks w)
            (ignoreErr (checkMachineReady w Main (Name new_machine) kubeversion)) h1)"

section \<open>The worker goroutines\<close>

text \<open>
  A goroutine started on line 138 is in one of these places:
  \<^item> \<open>Fetch name\<close>: before the \<^verbatim>\<open>Get\<close> of line 140, with the name of the listed machine;
  \<^item> \<open>Test p\<close>: line 140 has assigned \<^verbatim>\<open>mach\<close> and \<^verbatim>\<open>err\<close>; before the test of line 141,
    with the pointer \<open>p\<close> now in \<^verbatim>\<open>mach\<close>;
  \<^item> \<open>Submit mach\<close>: line 141 has found \<^verbatim>\<open>err\<close> nil; before lines 142-143, with the
    machine \<^verbatim>\<open>mach\<close> points to;
  \<^item> \<open>Polling name n\<close>: inside the \<^verbatim>\<open>wait.Poll\<close> of line 146 on the name of the machine
    that \<^verbatim>\<open>Update\<close> returned, with \<open>n\<close> checks left before the deadline;
  \<^item> \<open>Send\<close>: before the send of line 160;
  \<^item> \<open>Finished\<close>: after it.
\<close>

datatype task =
  Fetch string | Test "machine option" | Submit machine | Polling string nat | Send | Finished

text \<open>
  The calling goroutine, once the goroutines are started, is in the loop of lines
  165-176:
  \<^item> \<open>Receiving ms\<close>: at the head of the loop, with the machines still to visit;
  \<^item> \<open>Testing ms\<close>: line 167 has received a value into \<^verbatim>\<open>err\<close>; before the test
    \<^verbatim>\<open>err != nil\<close> of the same line, with the machines after the current one;
  \<^item> \<open>Returning\<close>: the test has found \<^verbatim>\<open>err\<close> not nil; before \<^verbatim>\<open>return err\<close> of line 168;
  \<^item> \<open>Returned r\<close>: the function has returned \<open>r\<close>;
  \<^item> \<open>Panicked\<close>: a goroutine has dereferenced a nil pointer, which ends the program.
  The goroutines are not stopped when the function returns: they may take steps after
  it.
\<close>

datatype coordinator =
  Receiving "machine list" | Testing "machine list" | Returning | Returned "error option"
  | Panicked

text \<open>
  The state shared by the goroutines: \<open>err\<close> is the variable declared on line 91, which
  every function literal captures; \<open>errors\<close> is the content of the channel of line 135
  and \<open>cap\<close> its capacity; \<open>hist\<close> is the calls made so far. \<open>delivered\<close> records every
  value ever sent on the channel, in the order of the sends; no step reads it.
\<close>

record state =
  err :: "error option"
  errors :: "error option list"
  cap :: nat
  tasks :: "task list"
  coord :: coordinator
  hist :: history
  delivered :: "error option list"

text \<open>
  One step of goroutine \<open>i\<close>; a step holds at most one access to the shared \<^verbatim>\<open>err\<close> or
  to the channel.
  \<^item> Line 140 calls \<^verbatim>\<open>Get\<close> and assigns its two values to \<^verbatim>\<open>mach\<close> and to the shared
    \<^verbatim>\<open>err\<close>.
  \<^item> Line 141 reads the shared \<^verbatim>\<open>err\<close>, which another goroutine may have written in
    between. When it is nil, line 142 writes through \<^verbatim>\<open>mach\<close>: a nil pointer panics.
  \<^item> Line 143 calls \<^verbatim>\<open>Update\<close> and declares a new \<^verbatim>\<open>err\<close> with \<^verbatim>\<open>:=\<close> inside the block of
    line 141: the error of \<^verbatim>\<open>Update\<close> and the result of \<^verbatim>\<open>wait.Poll\<close> (line 146) are
    assigned to that variable, whose scope ends on line 157.
  \<^item> Each check of the poll is a step.
  \<^item> Line 160 sends the shared \<^verbatim>\<open>err\<close>, whatever it holds at that moment. A send waits
    while the channel is full.
  After a panic no goroutine takes a step.
\<close>

definition task_step :: "world \<Rightarrow> string \<Rightarrow> nat \<Rightarrow> state \<Rightarrow> state" where
  "task_step w kubeversion i s =
     (if coord s = Panicked \<or> length (tasks s) \<le> i then s
      else
        case tasks s ! i of
          Fetch name \<Rightarrow>
            (case getResult w (hist s) name of
               (p, e) \<Rightarrow>
                 s\<lparr>err := e, hist := hist s @ [(Task i, CGet name)],
                   tasks := (tasks s)[i := Test p]\<rparr>)
        | Test p \<Rightarrow>
            (if err s = None
             then (case p of
                     None \<Rightarrow> s\<lparr>coord := Panicked\<rparr>
                   | Some mach \<Rightarrow> s\<lparr>tasks := (tasks s)[i := Submit mach]\<rparr>)
             else s\<lparr>tasks := (tasks s)[i := Send]\<rparr>)
        | Submit mach \<Rightarrow>
            (let mach' = mach\<lparr>Kubelet := kubeversion\<rparr> in
             case machUpdate w (hist s) mach' of
               Inl e \<Rightarrow>
                 s\<lparr>hist := hist s @ [(Task i, CUpdate mach')], tasks := (tasks s)[i := Send]\<rparr>
             | Inr new_machine \<Rightarrow>
                 s\<lparr>hist := hist s @ [(Task i, CUpdate mach')],
                   tasks := (tasks s)[i := Polling (Name new_machine) (pollChecks w)]\<rparr>)
        | Polling name n \<Rightarrow>
            (case n of
               0 \<Rightarrow> s\<lparr>tasks := (tasks s)[i := Send]\<rparr>
             | Suc k \<Rightarrow>
                 (case ignoreErr (checkMachineReady w (Task i) name kubeversion) (hist s) of
                    (r, h') \<Rightarrow>
                      (case poll_attempt (pollStrict w) r of
                         Some res \<Rightarrow> s\<lparr>hist := h', tasks := (tasks s)[i := Send]\<rparr>
                       | None \<Rightarrow> s\<lparr>hist := h', tasks := (tasks s)[i := Polling name k]\<rparr>)))
        | Send \<Rightarrow>
            (if length (errors s) < cap s
             then s\<lparr>errors := errors s @ [err s], delivered := delivered s @ [err s],
                    tasks := (tasks s)[i := Finished]\<rparr>
             else s)
        | Finished \<Rightarrow> s)"

text \<open>
  One step of the loop of lines 165-176. At the head of the loop a control-plane
  machine is passed over; for any other machine the next value is taken from the
  channel (the step waits while the channel is empty) and assigned to the shared
  \<^verbatim>\<open>err\<close>. The test of line 167 and the return of line 168 each read the shared \<^verbatim>\<open>err\<close>
  again, in a step of their own. After the last machine the function returns nil
  (line 179).
\<close>

definition main_step :: "world \<Rightarrow> state \<Rightarrow> state" where
  "main_step w s =
     (case coord s of
        Receiving [] \<Rightarrow> s\<lparr>coord := Returned None\<rparr>
      | Receiving (machine # rest) \<Rightarrow>
          if IsMaster w machine then s\<lparr>coord := Receiving rest\<rparr>
          else
            (case errors s of
               [] \<Rightarrow> s
             | x # xs \<Rightarrow> s\<lparr>errors := xs, err := x, coord := Testing rest\<rparr>)
      | Testing rest \<Rightarrow>
          if err s \<noteq> None then s\<lparr>coord := Returning\<rparr> else s\<lparr>coord := Receiving rest\<rparr>
      | Returning \<Rightarrow> s\<lparr>coord := Returned (err s)\<rparr>
      | Returned r \<Rightarrow> s
      | Panicked \<Rightarrow> s)"

fun step :: "world \<Rightarrow> string \<Rightarrow> actor \<Rightarrow> state \<Rightarrow> state" where
  "step w kubeversion Main s = main_step w s"
| "step w kubeversion (Task i) s = task_step w kubeversion i s"

text \<open>A schedule names the goroutine that takes each step, one after the other.\<close>

fun run :: "world \<Rightarrow> string \<Rightarrow> actor list \<Rightarrow> state \<Rightarrow> state" where
  "run w kubeversion [] s = s"
| "run w kubeversion (a # sched) s = run w kubeversion sched (step w kubeversion a s)"

text \<open>
  A step disturbs the loop when it is the assignment of line 140 by a goroutine while
  the loop stands between its receive and its test, or between its test and its
  return: the two reads of \<^verbatim>\<open>err\<close> by the loop then see another value than the one
  received. A schedule is undisturbed from a state when none of its steps does so.
\<close>

definition disturbs :: "state \<Rightarrow> actor \<Rightarrow> bool" where
  "disturbs s a =
     (case a of
        Main \<Rightarrow> False
      | Task i \<Rightarrow>
          i < length (tasks s) \<and>
          (case tasks s ! i of Fetch name \<Rightarrow> True | _ \<Rightarrow> False) \<and>
          (case coord s of Testing rest \<Rightarrow> True | Returning \<Rightarrow> True | _ \<Rightarrow> False))"

fun undisturbed :: "world \<Rightarrow> string \<Rightarrow> actor list \<Rightarrow> state \<Rightarrow> bool" where
  "undisturbed w kubeversion [] s = True"
| "undisturbed w kubeversion (a # sched) s =
     (\<not> disturbs s a \<and> undisturbed w kubeversion sched (step w kubeversion a s))"

section \<open>UpgradeCluster\<close>

text \<open>The state in which the function has returned \<open>r\<close> before starting any goroutine.\<close>

definition returned :: "error option \<Rightarrow> history \<Rightarrow> state" where
  "returned r h =
     \<lparr>err = r, errors = [], cap = 0, tasks = [], coord = Returned r, hist = h, delivered = []\<rparr>"

text \<open>
  The state after the loop of lines 136-163 has started one goroutine for each machine
  that is not a control-plane machine, each with the pointer to its machine in the list.
\<close>

definition fanout :: "world \<Rightarrow> machine list \<Rightarrow> error option \<Rightarrow> history \<Rightarrow> state" where
  "fanout w items e h =
     \<lparr>err = e, errors = [], cap = length items,
      tasks = map (\<lambda>mach. Fetch (Name mach)) (filter (\<lambda>mach. \<not> IsMaster w mach) items),
      coord = Receiving items, hist = h, delivered = []\<rparr>"

text \<open>
  \<^verbatim>\<open>UpgradeCluster\<close> (lines 84-180) after \<^verbatim>\<open>initClient\<close> has succeeded, under a schedule
  for the goroutines; with the empty schedule, the state in which the goroutines start. The scan of lines 100-105 stops at the first control-plane
  machine. The variable \<open>err1\<close> below is the \<^verbatim>\<open>err\<close> declared on line 91: line 108 assigns to
  it, while the else branch assigns to its own \<^verbatim>\<open>err\<close> (see \<open>upgradeControlPlane\<close>), so
  that after the branch it still holds the nil of \<^verbatim>\<open>List\<close>. Line 125 tests it.
\<close>

definition UpgradeCluster :: "world \<Rightarrow> string \<Rightarrow> actor list \<Rightarrow> state" where
  "UpgradeCluster w kubeversion sched =
     (let h0 = [(Main, CList)] in
      case machList w [] of
        Inl e \<Rightarrow> returned (Some e) h0
      | Inr items \<Rightarrow>
          (case (case find (IsMaster w) items of
                   None \<Rightarrow> (Some (Errorf ''No master is found.''), h0)
                 | Some master \<Rightarrow> (None, snd (upgradeControlPlane w kubeversion master h0))) of
             (err1, h1) \<Rightarrow>
               if err1 \<noteq> None then returned err1 h1
               else run w kubeversion sched (fanout w items err1 h1)))"

section \<open>Observations on a run\<close>

text \<open>The calls one actor has made, in their order.\<close>

definition callsOf :: "actor \<Rightarrow> history \<Rightarrow> call list" where
  "callsOf a h = map snd (filter (\<lambda>e. fst e = a) h)"

fun isUpdate :: "call \<Rightarrow> bool" where
  "isUpdate (CUpdate m) = True"
| "isUpdate c = False"

text \<open>The first value of a list of outcomes that is not nil, and nil when there is none.\<close>

fun firstError :: "error option list \<Rightarrow> error option" where
  "firstError [] = None"
| "firstError (None # xs) = firstError xs"
| "firstError (Some e # xs) = Some e"

text \<open>The machines for which a goroutine is started, in the order of the listing.\<close>

definition workers :: "world \<Rightarrow> machine list \<Rightarrow> machine list" where
  "workers w items = filter (\<lambda>mach. \<not> IsMaster w mach) items"

text \<open>Calls of one actor with no \<^verbatim>\<open>Update\<close> among them, as a poll makes them.\<close>

definition pollCalls :: "actor \<Rightarrow> history \<Rightarrow> bool" where
  "pollCalls a new \<longleftrightarrow> (\<forall>e \<in> set new. fst e = a \<and> \<not> isUpdate (snd e))"

section \<open>Invariants of the goroutines\<close>

text \<open>
  For \<open>n\<close> goroutines, in every run: one value was sent for each goroutine that has
  finished, and the channel has room for all of them.
\<close>

definition count_inv :: "nat \<Rightarrow> state \<Rightarrow> bool" where
  "count_inv n s \<longleftrightarrow>
     length (tasks s) = n \<and> n \<le> cap s \<and>
     length (delivered s) = length (filter (\<lambda>t. t = Finished) (tasks s))"

text \<open>
  The channel and the loop that reads it, in an undisturbed run: every value sent so
  far was either taken by the loop or is still in the channel; all values the loop took
  before the last were nil; between the receive and the return the shared \<^verbatim>\<open>err\<close> holds
  the value received.
\<close>

fun coord_inv ::
    "world \<Rightarrow> nat \<Rightarrow> coordinator \<Rightarrow> error option \<Rightarrow> error option list \<Rightarrow>
     error option list \<Rightarrow> bool" where
  "coord_inv w n (Receiving rest) e dl ch \<longleftrightarrow>
     length (workers w rest) \<le> n \<and> dl = replicate (n - length (workers w rest)) None @ ch"
| "coord_inv w n (Testing rest) e dl ch \<longleftrightarrow>
     length (workers w rest) < n \<and>
     dl = replicate (n - Suc (length (workers w rest))) None @ e # ch"
| "coord_inv w n Returning e dl ch \<longleftrightarrow> e \<noteq> None \<and> firstError dl = e"
| "coord_inv w n (Returned None) e dl ch \<longleftrightarrow> dl = replicate n None @ ch"
| "coord_inv w n (Returned (Some x)) e dl ch \<longleftrightarrow> firstError dl = Some x"
| "coord_inv w n Panicked e dl ch \<longleftrightarrow> True"

definition chan_inv :: "world \<Rightarrow> nat \<Rightarrow> state \<Rightarrow> bool" where
  "chan_inv w n s \<longleftrightarrow>
     count_inv n s \<and> coord_inv w n (coord s) (err s) (delivered s) (errors s)"



text \<open>
  The goroutines and the machines \<open>ws\<close> they were started for: goroutine \<open>i\<close> has made no
  call yet and is about to fetch the \<open>i\<close>-th of them by its name, or that fetch was its
  first call. No other goroutine makes a call.
\<close>

definition task_inv :: "machine list \<Rightarrow> state \<Rightarrow> bool" where
  "task_inv ws s \<longleftrightarrow>
     length (tasks s) = length ws \<and>
     (\<forall>i. if i < length ws
          then (tasks s ! i = Fetch (Name (ws ! i)) \<and> callsOf (Task i) (hist s) = []) \<or>
               ((\<forall>n. tasks s ! i \<noteq> Fetch n) \<and> callsOf (Task i) (hist s) \<noteq> [] \<and>
                hd (callsOf (Task i) (hist s)) = CGet (Name (ws ! i)))
          else callsOf (Task i) (hist s) = [])"

text \<open>
  A bound on the steps a goroutine still takes before it has finished, when a poll
  makes at most \<open>p\<close> checks.
\<close>

fun rank :: "nat \<Rightarrow> task \<Rightarrow> nat" where
  "rank p (Fetch name) = p + 5"
| "rank p (Test q) = p + 4"
| "rank p (Submit mach) = p + 3"
| "rank p (Polling name n) = n + 2"
| "rank p Send = 1"
| "rank p Finished = 0"

text \<open>
  A goroutine that runs alone passes the test of line 141 with the pointer of a
  successful \<^verbatim>\<open>Get\<close>: while it stands before the test, a nil \<^verbatim>\<open>err\<close> comes with a machine.
\<close>

definition alone :: "nat \<Rightarrow> state \<Rightarrow> bool" where
  "alone i s \<longleftrightarrow> (\<forall>p. tasks s ! i = Test p \<longrightarrow> err s = None \<longrightarrow> p \<noteq> None)"

section \<open>Example clusters\<close>

text \<open>
  Concrete inputs for the checks below. A machine of the examples is a control-plane
  machine when its control-plane version is set, and a node is ready when its condition
  list says so; the node of machine \<open>n\<close> is called \<open>node-n\<close>. The answers of an example
  cluster do not depend on the calls made before: \<^verbatim>\<open>Get\<close> fails for the names in
  \<open>badGet\<close>, \<^verbatim>\<open>Update\<close> fails for the machines named in \<open>badUpdate\<close> (the error carries the
  name), and the nodes named in \<open>oldNodes\<close> stay at version 1.2.2 while all others
  report 1.2.3. A poll gives up after two checks. Together with an error, \<^verbatim>\<open>Get\<close> hands
  back a pointer to an empty machine.
\<close>

definition exMachine :: "string \<Rightarrow> string \<Rightarrow> machine" where
  "exMachine n cp = \<lparr>Name = n, Kubelet = ''1.2.2'', ControlPlane = cp, NodeRef = Some (''node-'' @ n)\<rparr>"

definition exNode :: "string \<Rightarrow> node" where
  "exNode ver = \<lparr>Conditions = [(''Ready'', ''True'')], KubeletVersion = ver\<rparr>"

definition exWorld ::
    "(error + machine list) \<Rightarrow> string list \<Rightarrow> string list \<Rightarrow> string list \<Rightarrow> world" where
  "exWorld listing badGet badUpdate oldNodes =
     \<lparr>IsMaster = (\<lambda>m. ControlPlane m \<noteq> []),
      IsNodeReady = (\<lambda>n. (''Ready'', ''True'') \<in> set (Conditions n)),
      machList = (\<lambda>h. listing),
      machGet = (\<lambda>h n. if n \<in> set badGet then Inl (ClientError n)
                        else Inr (exMachine n (if n = ''m0'' then ''1.2.2'' else []))),
      machUpdate = (\<lambda>h m. if Name m \<in> set badUpdate then Inl (ClientError (Name m)) else Inr m),
      nodesGet = (\<lambda>h n. Inr (exNode (if n \<in> set oldNodes then ''v1.2.2'' else ''v1.2.3''))),
      pollChecks = 2,
      pollStrict = True,
      getOnError = (\<lambda>h n. Some \<lparr>Name = [], Kubelet = [], ControlPlane = [], NodeRef = None\<rparr>)\<rparr>"

text \<open>One control-plane machine and two workers; one control-plane machine and one worker.\<close>

definition exThree :: "machine list" where
  "exThree = [exMachine ''m0'' ''1.2.2'', exMachine ''w1'' [], exMachine ''w2'' []]"

definition exTwo :: "machine list" where
  "exTwo = [exMachine ''m0'' ''1.2.2'', exMachine ''w1'' []]"

text \<open>
  A sequence of check results over a counter: the check fails with an error twice and
  reports ready the third time.
\<close>

definition exCheck :: "nat \<Rightarrow> (bool \<times> error option) \<times> nat" where
  "exCheck k = ((k = 2, if k < 2 then Some (ClientError ''restarting'') else None), Suc k)"

text \<open>Two control-plane machines and one worker.\<close>

definition exTwoMasters :: "machine list" where
  "exTwoMasters = [exMachine ''m0'' ''1.2.2'', exMachine ''m1'' ''1.2.2'', exMachine ''w1'' []]"

section \<open>The readiness check decides on the node's state and version\<close>

text \<open>
  C6. The readiness check reports ready exactly when the machine is fetched, it refers
  to a node, the node is fetched, the node is ready according to \<open>IsNodeReady\<close>, and
  the kubelet version the node reports is the string \<open>v\<close> followed by the target
  version: the two strings are compared as they are.
\<close>

theorem checkMachineReady_ready_iff:
  "fst (fst (checkMachineReady w a machineName kubeVersion h)) \<longleftrightarrow>
     (\<exists>machine ref node.
        machGet w h machineName = Inr machine \<and> NodeRef machine = Some ref \<and>
        nodesGet w (h @ [(a, CGet machineName)]) ref = Inr node \<and>
        IsNodeReady w node \<and> KubeletVersion node = ''v'' @ kubeVersion)"
  by (auto simp: checkMachineReady_def Let_def split: sum.splits option.splits)

theorem checkMachineReady_ready_iff_witness:
  "fst (fst (checkMachineReady
       (exWorld (Inr exTwo) [] [] []) Main ''w1'' ''1.2.3'' [])) \<and>
   \<not> fst (fst (checkMachineReady
       (exWorld (Inr exTwo) [] [] []) Main ''w1'' ''1.2'' []))"
  unfolding checkMachineReady_ready_iff
  by (simp add: exWorld_def exMachine_def exNode_def)

text \<open>
  C10. When the machine is fetched and its node reference is nil, the readiness check
  returns not ready with a nil error, and the poll that runs the check goes on.
\<close>

theorem checkMachineReady_no_node_ref:
  assumes "machGet w h machineName = Inr machine" and "NodeRef machine = None"
  shows "fst (checkMachineReady w a machineName kubeVersion h) = (False, None) \<and>
         poll_attempt strict
           (fst (ignoreErr (checkMachineReady w a machineName kubeVersion) h)) = None"
  using assms by (simp add: checkMachineReady_def ignoreErr_def)

theorem checkMachineReady_no_node_ref_witness:
  "fst (checkMachineReady
      ((exWorld (Inr exTwo) [] [] [])\<lparr>machGet := \<lambda>h n. Inr ((exMachine n [])\<lparr>NodeRef := None\<rparr>)\<rparr>)
      (Task 0) ''w1'' ''1.2.3'' []) = (False, None) \<and>
   poll_attempt True
     (fst (ignoreErr (checkMachineReady
        ((exWorld (Inr exTwo) [] [] [])\<lparr>machGet := \<lambda>h n. Inr ((exMachine n [])\<lparr>NodeRef := None\<rparr>)\<rparr>)
        (Task 0) ''w1'' ''1.2.3'') [])) = None"
  by (rule checkMachineReady_no_node_ref [where machine = "(exMachine ''w1'' [])\<lparr>NodeRef := None\<rparr>"])
    (simp_all add: exWorld_def exMachine_def)

section \<open>The poll and the errors of its check\<close>

lemma ignoreErr_snd: "snd (ignoreErr check s) = snd (check s)"
  by (simp add: ignoreErr_def split: prod.splits option.splits)

lemma ignoreErr_fst:
  "fst (ignoreErr check s) = (if fst (check s) = (True, None) then (True, None) else (False, None))"
  by (auto simp: ignoreErr_def split: prod.splits option.splits)

lemma poll_attempt_ignoreErr:
  "poll_attempt strict (fst (ignoreErr check s)) =
     (if fst (check s) = (True, None) then Some None else None)"
  by (simp add: ignoreErr_fst)

lemma wait_Poll_ignoreErr_Suc:
  "wait_Poll strict (Suc n) (ignoreErr check) s =
     (if fst (check s) = (True, None) then (None, snd (check s))
      else wait_Poll strict n (ignoreErr check) (snd (check s)))"
proof (cases "ignoreErr check s")
  case (Pair r s')
  with poll_attempt_ignoreErr [of strict check s] ignoreErr_snd [of check s]
  show ?thesis by simp
qed

text \<open>
  C7. Whatever the check returns, and whether or not the poller itself stops on an error
  of its condition: the poll around the function literal succeeds exactly when one
  of the checks that fit into the deadline returns ready with a nil error, and it fails
  in one way only, with the timeout. An error of an earlier check changes nothing.
\<close>

theorem poll_ignores_check_errors:
  "fst (wait_Poll strict n (ignoreErr check) s) =
     (if \<exists>k<n. fst (check (state_at check k s)) = (True, None) then None
      else Some ErrWaitTimeout)"
proof (induction n arbitrary: s)
  case 0
  show ?case by simp
next
  case (Suc n)
  show ?case
  proof (cases "fst (check s) = (True, None)")
    case True
    then have "\<exists>k<Suc n. fst (check (state_at check k s)) = (True, None)"
      by (intro exI [of _ 0]) simp
    with True show ?thesis
      by (simp add: wait_Poll_ignoreErr_Suc del: wait_Poll.simps)
  next
    case False
    have shift: "(\<exists>k<Suc n. fst (check (state_at check k s)) = (True, None)) \<longleftrightarrow>
        (\<exists>k<n. fst (check (state_at check k (snd (check s)))) = (True, None))"
    proof
      assume "\<exists>k<Suc n. fst (check (state_at check k s)) = (True, None)"
      then obtain k where k: "k < Suc n" "fst (check (state_at check k s)) = (True, None)"
        by blast
      with False obtain j where "k = Suc j" by (cases k) auto
      with k show "\<exists>k<n. fst (check (state_at check k (snd (check s)))) = (True, None)"
        by auto
    next
      assume "\<exists>k<n. fst (check (state_at check k (snd (check s)))) = (True, None)"
      then obtain j where "j < n" "fst (check (state_at check j (snd (check s)))) = (True, None)"
        by blast
      then show "\<exists>k<Suc n. fst (check (state_at check k s)) = (True, None)"
        by (intro exI [of _ "Suc j"]) simp
    qed
    from False show ?thesis
      by (simp add: wait_Poll_ignoreErr_Suc Suc.IH shift del: wait_Poll.simps)
  qed
qed

theorem poll_ignores_check_errors_witness:
  "fst (wait_Poll True 3 (ignoreErr exCheck) 0) = None \<and>
   fst (wait_Poll True 2 (ignoreErr exCheck) 0) = Some ErrWaitTimeout"
proof -
  have ready: "\<exists>k<3. fst (exCheck (state_at exCheck k 0)) = (True, None)"
    by (intro exI [of _ 2]) (simp add: exCheck_def numeral_2_eq_2)
  have "fst (exCheck (state_at exCheck k 0)) \<noteq> (True, None)" if "k < 2" for k
  proof -
    from that have "k = 0 \<or> k = 1" by auto
    then show ?thesis by (auto simp: exCheck_def)
  qed
  then have late: "\<not> (\<exists>k<2. fst (exCheck (state_at exCheck k 0)) = (True, None))"
    by blast
  from ready late show ?thesis
    by (simp only: poll_ignores_check_errors if_True if_False simp_thms)
qed

section \<open>The calls of the sequential part\<close>


lemma pollCalls_Nil: "pollCalls a []"
  by (simp add: pollCalls_def)

lemma pollCalls_append: "pollCalls a (xs @ ys) \<longleftrightarrow> pollCalls a xs \<and> pollCalls a ys"
  by (auto simp: pollCalls_def)

lemma checkMachineReady_hist:
  "\<exists>new. snd (checkMachineReady w a name v h) = h @ new \<and> pollCalls a new"
  by (auto simp: checkMachineReady_def pollCalls_def Let_def split: sum.splits option.splits)

lemma wait_Poll_hist:
  "\<exists>new. snd (wait_Poll strict n (ignoreErr (checkMachineReady w a name v)) h) = h @ new \<and>
     pollCalls a new"
proof (induction n arbitrary: h)
  case 0
  show ?case by (simp add: pollCalls_Nil)
next
  case (Suc n)
  obtain new1 where new1: "snd (checkMachineReady w a name v h) = h @ new1" "pollCalls a new1"
    using checkMachineReady_hist by blast
  obtain new2 where new2:
    "snd (wait_Poll strict n (ignoreErr (checkMachineReady w a name v)) (h @ new1)) = (h @ new1) @ new2"
    "pollCalls a new2"
    using Suc.IH by blast
  show ?case
  proof (cases "fst (checkMachineReady w a name v h) = (True, None)")
    case True
    with new1 show ?thesis
      by (auto simp: wait_Poll_ignoreErr_Suc simp del: wait_Poll.simps)
  next
    case False
    with new1 new2 have
      "snd (wait_Poll strict (Suc n) (ignoreErr (checkMachineReady w a name v)) h) = h @ (new1 @ new2)"
      by (simp add: wait_Poll_ignoreErr_Suc del: wait_Poll.simps)
    moreover from new1 new2 have "pollCalls a (new1 @ new2)"
      by (simp add: pollCalls_append)
    ultimately show ?thesis by blast
  qed
qed

lemma upgradeControlPlane_hist:
  "\<exists>polls. snd (upgradeControlPlane w v master h) =
       h @ (Main, CUpdate (master\<lparr>Kubelet := v, ControlPlane := v\<rparr>)) # polls \<and>
     pollCalls Main polls"
proof (cases "machUpdate w h (master\<lparr>Kubelet := v, ControlPlane := v\<rparr>)")
  case (Inl e)
  then show ?thesis
    by (simp add: upgradeControlPlane_def Let_def pollCalls_Nil)
next
  case (Inr new_machine)
  obtain new where
    "snd (wait_Poll (pollStrict w) (pollChecks w)
        (ignoreErr (checkMachineReady w Main (Name new_machine) v))
        (h @ [(Main, CUpdate (master\<lparr>Kubelet := v, ControlPlane := v\<rparr>))])) =
      (h @ [(Main, CUpdate (master\<lparr>Kubelet := v, ControlPlane := v\<rparr>))]) @ new"
    "pollCalls Main new"
    using wait_Poll_hist by blast
  with Inr show ?thesis
    by (simp add: upgradeControlPlane_def Let_def)
qed

lemma UpgradeCluster_no_master:
  assumes "machList w [] = Inr items" and "find (IsMaster w) items = None"
  shows "UpgradeCluster w v sched = returned (Some (Errorf ''No master is found.'')) [(Main, CList)]"
  using assms by (simp add: UpgradeCluster_def)

lemma UpgradeCluster_list_error:
  assumes "machList w [] = Inl e"
  shows "UpgradeCluster w v sched = returned (Some e) [(Main, CList)]"
  using assms by (simp add: UpgradeCluster_def)

lemma UpgradeCluster_master:
  assumes "machList w [] = Inr items" and "find (IsMaster w) items = Some master"
  shows "\<exists>polls. pollCalls Main polls \<and>
     (\<forall>sched. UpgradeCluster w v sched =
        run w v sched (fanout w items None
          ((Main, CList) # (Main, CUpdate (master\<lparr>Kubelet := v, ControlPlane := v\<rparr>)) # polls)))"
proof -
  obtain polls where
    "snd (upgradeControlPlane w v master [(Main, CList)]) =
       [(Main, CList)] @ (Main, CUpdate (master\<lparr>Kubelet := v, ControlPlane := v\<rparr>)) # polls"
    "pollCalls Main polls"
    using upgradeControlPlane_hist by blast
  with assms show ?thesis
    by (auto simp: UpgradeCluster_def)
qed

section \<open>The steps of the goroutines, case by case\<close>

lemma task_step_cases
  [case_names idle fetch panic test_ok test_skip submit timeout poll send]:
  obtains
    (idle) "task_step w v i s = s"
  | (fetch) name p e where
      "coord s \<noteq> Panicked" "i < length (tasks s)" "tasks s ! i = Fetch name"
      "getResult w (hist s) name = (p, e)"
      "task_step w v i s =
         s\<lparr>err := e, hist := hist s @ [(Task i, CGet name)], tasks := (tasks s)[i := Test p]\<rparr>"
  | (panic) "coord s \<noteq> Panicked" "i < length (tasks s)" "tasks s ! i = Test None"
      "err s = None" "task_step w v i s = s\<lparr>coord := Panicked\<rparr>"
  | (test_ok) mach where
      "coord s \<noteq> Panicked" "i < length (tasks s)" "tasks s ! i = Test (Some mach)"
      "err s = None" "task_step w v i s = s\<lparr>tasks := (tasks s)[i := Submit mach]\<rparr>"
  | (test_skip) p where
      "coord s \<noteq> Panicked" "i < length (tasks s)" "tasks s ! i = Test p" "err s \<noteq> None"
      "task_step w v i s = s\<lparr>tasks := (tasks s)[i := Send]\<rparr>"
  | (submit) mach t where
      "coord s \<noteq> Panicked" "i < length (tasks s)" "tasks s ! i = Submit mach"
      "t = Send \<or> (\<exists>name. t = Polling name (pollChecks w))"
      "task_step w v i s =
         s\<lparr>hist := hist s @ [(Task i, CUpdate (mach\<lparr>Kubelet := v\<rparr>))],
           tasks := (tasks s)[i := t]\<rparr>"
  | (timeout) name where
      "coord s \<noteq> Panicked" "i < length (tasks s)" "tasks s ! i = Polling name 0"
      "task_step w v i s = s\<lparr>tasks := (tasks s)[i := Send]\<rparr>"
  | (poll) name k new t where
      "coord s \<noteq> Panicked" "i < length (tasks s)" "tasks s ! i = Polling name (Suc k)"
      "pollCalls (Task i) new" "t = Send \<or> t = Polling name k"
      "task_step w v i s = s\<lparr>hist := hist s @ new, tasks := (tasks s)[i := t]\<rparr>"
  | (send) "coord s \<noteq> Panicked" "i < length (tasks s)" "tasks s ! i = Send"
      "length (errors s) < cap s"
      "task_step w v i s =
         s\<lparr>errors := errors s @ [err s], delivered := delivered s @ [err s],
           tasks := (tasks s)[i := Finished]\<rparr>"
proof (cases "coord s \<noteq> Panicked \<and> i < length (tasks s)")
  case False
  then have "task_step w v i s = s" by (auto simp: task_step_def)
  then show ?thesis by (rule idle)
next
  case True
  then have np: "coord s \<noteq> Panicked" and inb: "i < length (tasks s)" by simp_all
  show ?thesis
  proof (cases "tasks s ! i")
    case (Fetch name)
    obtain p e where "getResult w (hist s) name = (p, e)"
      by (cases "getResult w (hist s) name")
    with np inb Fetch show ?thesis by (intro fetch [of name p e]) (simp_all add: task_step_def)
  next
    case (Test p)
    show ?thesis
    proof (cases "err s = None")
      case False
      with np inb Test show ?thesis by (intro test_skip [of p]) (auto simp: task_step_def)
    next
      case nil: True
      show ?thesis
      proof (cases p)
        case None
        with np inb Test nil show ?thesis by (intro panic) (simp_all add: task_step_def)
      next
        case (Some mach)
        with np inb Test nil show ?thesis
          by (intro test_ok [of mach]) (simp_all add: task_step_def)
      qed
    qed
  next
    case (Submit mach)
    show ?thesis
    proof (cases "machUpdate w (hist s) (mach\<lparr>Kubelet := v\<rparr>)")
      case (Inl e)
      with np inb Submit show ?thesis
        by (intro submit [of mach Send]) (simp_all add: task_step_def)
    next
      case (Inr new_machine)
      with np inb Submit show ?thesis
        by (intro submit [of mach "Polling (Name new_machine) (pollChecks w)"])
          (simp_all add: task_step_def)
    qed
  next
    case (Polling name n)
    show ?thesis
    proof (cases n)
      case 0
      with np inb Polling show ?thesis by (intro timeout [of name]) (simp_all add: task_step_def)
    next
      case (Suc k)
      obtain new where new:
        "snd (checkMachineReady w (Task i) name v (hist s)) = hist s @ new" "pollCalls (Task i) new"
        using checkMachineReady_hist by blast
      obtain r h' where rh: "ignoreErr (checkMachineReady w (Task i) name v) (hist s) = (r, h')"
        by (cases "ignoreErr (checkMachineReady w (Task i) name v) (hist s)")
      with new ignoreErr_snd [of "checkMachineReady w (Task i) name v" "hist s"]
      have h': "h' = hist s @ new" by simp
      show ?thesis
      proof (cases "poll_attempt (pollStrict w) r")
        case None
        with np inb Polling Suc rh h' new show ?thesis
          by (intro poll [of name k new "Polling name k"]) (simp_all add: task_step_def)
      next
        case (Some res)
        with np inb Polling Suc rh h' new show ?thesis
          by (intro poll [of name k new Send]) (simp_all add: task_step_def)
      qed
    qed
  next
    case Send
    show ?thesis
    proof (cases "length (errors s) < cap s")
      case True
      with np inb Send show ?thesis by (intro send) (simp_all add: task_step_def)
    next
      case False
      with inb Send have "task_step w v i s = s" by (simp add: task_step_def)
      then show ?thesis by (rule idle)
    qed
  next
    case Finished
    with inb have "task_step w v i s = s" by (simp add: task_step_def)
    then show ?thesis by (rule idle)
  qed
qed

lemma main_step_cases [case_names idle finish skip recv test_err test_nil return]:
  obtains
    (idle) "main_step w s = s"
  | (finish) "coord s = Receiving []" "main_step w s = s\<lparr>coord := Returned None\<rparr>"
  | (skip) machine rest where
      "coord s = Receiving (machine # rest)" "IsMaster w machine"
      "main_step w s = s\<lparr>coord := Receiving rest\<rparr>"
  | (recv) machine rest x xs where
      "coord s = Receiving (machine # rest)" "\<not> IsMaster w machine" "errors s = x # xs"
      "main_step w s = s\<lparr>errors := xs, err := x, coord := Testing rest\<rparr>"
  | (test_err) rest where
      "coord s = Testing rest" "err s \<noteq> None" "main_step w s = s\<lparr>coord := Returning\<rparr>"
  | (test_nil) rest where
      "coord s = Testing rest" "err s = None" "main_step w s = s\<lparr>coord := Receiving rest\<rparr>"
  | (return) "coord s = Returning" "main_step w s = s\<lparr>coord := Returned (err s)\<rparr>"
proof (cases "coord s")
  case (Returned r)
  then have "main_step w s = s" by (simp add: main_step_def)
  then show ?thesis by (rule idle)
next
  case Panicked
  then have "main_step w s = s" by (simp add: main_step_def)
  then show ?thesis by (rule idle)
next
  case Returning
  then show ?thesis by (intro return) (simp_all add: main_step_def)
next
  case (Testing rest)
  show ?thesis
  proof (cases "err s = None")
    case True
    with Testing show ?thesis by (intro test_nil [of rest]) (simp_all add: main_step_def)
  next
    case False
    with Testing show ?thesis by (intro test_err [of rest]) (simp_all add: main_step_def)
  qed
next
  case (Receiving todo)
  show ?thesis
  proof (cases todo)
    case Nil
    with Receiving show ?thesis by (intro finish) (simp_all add: main_step_def)
  next
    case (Cons machine rest)
    show ?thesis
    proof (cases "IsMaster w machine")
      case True
      with Receiving Cons show ?thesis by (intro skip [of machine rest]) (simp_all add: main_step_def)
    next
      case nm: False
      show ?thesis
      proof (cases "errors s")
        case Nil
        with Receiving Cons nm have "main_step w s = s" by (simp add: main_step_def)
        then show ?thesis by (rule idle)
      next
        case ch: (Cons x xs)
        with Receiving \<open>todo = machine # rest\<close> nm show ?thesis
          by (intro recv [of machine rest x xs]) (simp_all add: main_step_def)
      qed
    qed
  qed
qed

lemma run_invariant:
  assumes "P s" and "\<And>a s. P s \<Longrightarrow> P (step w v a s)"
  shows "P (run w v sched s)"
  using assms(1)
proof (induction sched arbitrary: s)
  case Nil
  then show ?case by simp
next
  case (Cons a sched)
  from Cons.prems have "P (step w v a s)" by (rule assms(2))
  then show ?case by (simp add: Cons.IH)
qed

text \<open>The same for a property that only the undisturbed steps keep.\<close>

lemma run_invariant_undisturbed:
  assumes "P s" and "undisturbed w v sched s"
    and "\<And>a s. P s \<Longrightarrow> \<not> disturbs s a \<Longrightarrow> P (step w v a s)"
  shows "P (run w v sched s)"
  using assms(1,2)
proof (induction sched arbitrary: s)
  case Nil
  then show ?case by simp
next
  case (Cons a sched)
  from Cons.prems have "P (step w v a s)" and "undisturbed w v sched (step w v a s)"
    by (simp_all add: assms(3))
  then show ?case by (simp add: Cons.IH)
qed

lemma main_step_frame:
  "tasks (main_step w s) = tasks s \<and> cap (main_step w s) = cap s \<and>
   delivered (main_step w s) = delivered s \<and> hist (main_step w s) = hist s"
  by (cases rule: main_step_cases [of w s]) simp_all

section \<open>What the loop takes from the channel\<close>

lemma firstError_replicate: "firstError (replicate k None @ xs) = firstError xs"
  by (induction k) simp_all

lemma firstError_append: "firstError xs = Some e \<Longrightarrow> firstError (xs @ ys) = Some e"
  by (induction xs rule: firstError.induct) simp_all

lemma finished_update:
  assumes "i < length ts" and "ts ! i \<noteq> Finished"
  shows "length (filter (\<lambda>t. t = Finished) (ts[i := t])) =
         length (filter (\<lambda>t. t = Finished) ts) + (if t = Finished then 1 else 0)"
  using assms
proof (induction ts arbitrary: i)
  case Nil
  then show ?case by simp
next
  case (Cons x ts)
  then show ?case by (cases i) auto
qed

subsection \<open>The count of the values sent, in every run\<close>

lemma count_inv_task_step:
  assumes "count_inv n s"
  shows "count_inv n (task_step w v i s)"
proof (cases rule: task_step_cases [of w v i s])
  case idle
  with assms show ?thesis by simp
next
  case (fetch name p e)
  with assms show ?thesis by (simp add: count_inv_def finished_update)
next
  case panic
  with assms show ?thesis by (simp add: count_inv_def)
next
  case (test_ok mach)
  with assms show ?thesis by (simp add: count_inv_def finished_update)
next
  case (test_skip p)
  with assms show ?thesis by (simp add: count_inv_def finished_update)
next
  case (submit mach t)
  with assms show ?thesis by (auto simp: count_inv_def finished_update)
next
  case (timeout name)
  with assms show ?thesis by (simp add: count_inv_def finished_update)
next
  case (poll name k new t)
  with assms show ?thesis by (auto simp: count_inv_def finished_update)
next
  case send
  with assms show ?thesis by (simp add: count_inv_def finished_update)
qed

lemma count_inv_step: "count_inv n s \<Longrightarrow> count_inv n (step w v a s)"
proof (cases a)
  case Main
  assume "count_inv n s"
  with main_step_frame [of w s] have "count_inv n (main_step w s)"
    by (simp add: count_inv_def)
  with Main show ?thesis by simp
next
  case (Task i)
  assume "count_inv n s"
  with Task show ?thesis by (simp add: count_inv_task_step)
qed

lemma count_inv_fanout: "count_inv (length (workers w items)) (fanout w items e h)"
  by (simp add: count_inv_def fanout_def workers_def filter_map comp_def)

lemma count_inv_run:
  "count_inv (length (workers w items)) (run w v sched (fanout w items e h))"
  by (rule run_invariant [where P = "count_inv (length (workers w items))"])
    (simp_all add: count_inv_fanout count_inv_step)

subsection \<open>The values the loop has taken, in an undisturbed run\<close>

lemma coord_inv_send:
  assumes "coord_inv w n c e dl ch"
  shows "coord_inv w n c e (dl @ [x]) (ch @ [x])"
proof (cases c)
  case (Receiving rest)
  with assms show ?thesis by simp
next
  case (Testing rest)
  with assms show ?thesis by simp
next
  case Returning
  with assms show ?thesis by (auto simp: firstError_append)
next
  case (Returned r)
  with assms show ?thesis by (cases r) (simp_all add: firstError_append)
next
  case Panicked
  then show ?thesis by simp
qed

text \<open>Outside the window between receive and return the invariant does not read \<open>err\<close>.\<close>

lemma coord_inv_err:
  assumes "coord_inv w n c e dl ch" and "\<And>rest. c \<noteq> Testing rest" and "c \<noteq> Returning"
  shows "coord_inv w n c e' dl ch"
proof (cases c)
  case (Returned r)
  with assms(1) show ?thesis by (cases r) simp_all
qed (use assms in simp_all)

lemma coord_inv_task_step:
  assumes "coord_inv w n (coord s) (err s) (delivered s) (errors s)"
    and "\<not> disturbs s (Task i)"
  shows "coord_inv w n (coord (task_step w v i s)) (err (task_step w v i s))
           (delivered (task_step w v i s)) (errors (task_step w v i s))"
proof (cases rule: task_step_cases [of w v i s])
  case idle
  with assms show ?thesis by simp
next
  case (fetch name p e)
  with assms(2) have "\<And>rest. coord s \<noteq> Testing rest" and "coord s \<noteq> Returning"
    by (auto simp: disturbs_def split: coordinator.splits)
  with assms(1) have "coord_inv w n (coord s) e (delivered s) (errors s)"
    by (rule coord_inv_err)
  with fetch show ?thesis by simp
next
  case panic
  then show ?thesis by simp
next
  case (test_ok mach)
  with assms show ?thesis by simp
next
  case (test_skip p)
  with assms show ?thesis by simp
next
  case (submit mach t)
  with assms show ?thesis by simp
next
  case (timeout name)
  with assms show ?thesis by simp
next
  case (poll name k new t)
  with assms show ?thesis by simp
next
  case send
  with assms show ?thesis by (simp add: coord_inv_send)
qed

lemma coord_inv_main_step:
  assumes "coord_inv w n (coord s) (err s) (delivered s) (errors s)"
  shows "coord_inv w n (coord (main_step w s)) (err (main_step w s)) (delivered s)
           (errors (main_step w s))"
proof (cases rule: main_step_cases [of w s])
  case idle
  with assms show ?thesis by simp
next
  case finish
  with assms show ?thesis by (simp add: workers_def)
next
  case (skip machine rest)
  with assms show ?thesis by (simp add: workers_def)
next
  case (recv machine rest x xs)
  with assms show ?thesis by (simp add: workers_def)
next
  case (test_err rest)
  with assms obtain e where "err s = Some e" and "firstError (delivered s) = Some e"
    by (auto simp: firstError_replicate)
  with test_err show ?thesis by simp
next
  case (test_nil rest)
  with assms have lt: "length (workers w rest) < n"
    and dl: "delivered s = replicate (n - Suc (length (workers w rest))) None @ None # errors s"
    by simp_all
  from lt have "n - length (workers w rest) = Suc (n - Suc (length (workers w rest)))" by simp
  with dl have "delivered s = replicate (n - length (workers w rest)) None @ errors s"
    by (simp add: replicate_app_Cons_same)
  with test_nil lt show ?thesis by simp
next
  case return
  with assms obtain e where "err s = Some e" and "firstError (delivered s) = Some e"
    by auto
  with return show ?thesis by simp
qed

lemma chan_inv_step:
  assumes "chan_inv w n s" and "\<not> disturbs s a"
  shows "chan_inv w n (step w v a s)"
proof (cases a)
  case Main
  with assms(1) coord_inv_main_step [of w n s] main_step_frame [of w s]
    count_inv_step [of n s w v Main]
  show ?thesis by (simp add: chan_inv_def del: coord_inv.simps)
next
  case (Task i)
  with assms coord_inv_task_step [of w n s i v] count_inv_step [of n s w v "Task i"]
  show ?thesis by (simp add: chan_inv_def del: coord_inv.simps)
qed

lemma chan_inv_fanout: "chan_inv w (length (workers w items)) (fanout w items e h)"
  using count_inv_fanout [of w items e h]
  by (simp add: chan_inv_def) (simp add: fanout_def)

lemma chan_inv_run:
  assumes "undisturbed w v sched (fanout w items e h)"
  shows "chan_inv w (length (workers w items)) (run w v sched (fanout w items e h))"
  using chan_inv_fanout assms
  by (rule run_invariant_undisturbed [where P = "chan_inv w (length (workers w items))"])
    (rule chan_inv_step)

lemma chan_inv_returned:
  assumes "chan_inv w n s" and "coord s = Returned r"
  shows "r = firstError (delivered s) \<and> (r = None \<longrightarrow> delivered s = replicate n None)"
proof (cases r)
  case None
  with assms have dl: "delivered s = replicate n None @ errors s"
    by (simp add: chan_inv_def)
  from assms have "length (delivered s) = length (filter (\<lambda>t. t = Finished) (tasks s))"
    and "length (tasks s) = n"
    unfolding chan_inv_def count_inv_def by blast+
  then have "length (delivered s) \<le> n"
    using length_filter_le [of "\<lambda>t. t = Finished" "tasks s"] by simp
  moreover from dl have "length (delivered s) = n + length (errors s)"
    by (simp only: length_append length_replicate)
  ultimately have "errors s = []" by simp
  with dl have "delivered s = replicate n None" by simp
  with None firstError_replicate [of n "[]"] show ?thesis by simp
next
  case (Some e)
  with assms show ?thesis by (simp add: chan_inv_def)
qed

section \<open>What the goroutines submit\<close>








section \<open>Which goroutine makes which call\<close>

lemma callsOf_append: "callsOf a (h @ new) = callsOf a h @ callsOf a new"
  by (simp add: callsOf_def)

lemma callsOf_other:
  assumes "\<forall>e \<in> set new. fst e = b" and "a \<noteq> b"
  shows "callsOf a new = []"
  using assms by (auto simp: callsOf_def filter_empty_conv)

lemma callsOf_pollCalls: "pollCalls b new \<Longrightarrow> a \<noteq> b \<Longrightarrow> callsOf a new = []"
  by (rule callsOf_other) (auto simp: pollCalls_def)

lemma task_inv_update:
  assumes inv: "task_inv ws s" and i: "i < length (tasks s)"
    and new: "\<forall>e \<in> set new. fst e = Task i"
    and t: "\<forall>n. t \<noteq> Fetch n"
    and first: "\<And>n. tasks s ! i = Fetch n \<Longrightarrow> \<exists>more. new = (Task i, CGet n) # more"
  shows "task_inv ws (s\<lparr>hist := hist s @ new, tasks := (tasks s)[i := t]\<rparr>)"
proof -
  from inv have len: "length (tasks s) = length ws"
    and each: "\<And>j. if j < length ws
          then (tasks s ! j = Fetch (Name (ws ! j)) \<and> callsOf (Task j) (hist s) = []) \<or>
               ((\<forall>n. tasks s ! j \<noteq> Fetch n) \<and> callsOf (Task j) (hist s) \<noteq> [] \<and>
                hd (callsOf (Task j) (hist s)) = CGet (Name (ws ! j)))
          else callsOf (Task j) (hist s) = []"
    unfolding task_inv_def by blast+
  have "if j < length ws
        then ((tasks s)[i := t] ! j = Fetch (Name (ws ! j)) \<and> callsOf (Task j) (hist s @ new) = []) \<or>
             ((\<forall>n. (tasks s)[i := t] ! j \<noteq> Fetch n) \<and> callsOf (Task j) (hist s @ new) \<noteq> [] \<and>
              hd (callsOf (Task j) (hist s @ new)) = CGet (Name (ws ! j)))
        else callsOf (Task j) (hist s @ new) = []" for j
  proof (cases "j = i")
    case False
    with new have "callsOf (Task j) new = []" by (intro callsOf_other [of new "Task i"]) simp_all
    with False each [of j] show ?thesis by (simp add: callsOf_append)
  next
    case True
    from i len have ib: "i < length ws" by simp
    show ?thesis
    proof (cases "\<exists>n. tasks s ! i = Fetch n")
      case True
      then obtain n where n: "tasks s ! i = Fetch n" ..
      with each [of i] ib have "n = Name (ws ! i)" "callsOf (Task i) (hist s) = []" by auto
      moreover from first [OF n] obtain more where "new = (Task i, CGet n) # more" ..
      then have "callsOf (Task i) new = CGet n # callsOf (Task i) more"
        by (simp add: callsOf_def)
      ultimately show ?thesis using \<open>j = i\<close> ib i t by (simp add: callsOf_append)
    next
      case False
      with each [of i] ib have "callsOf (Task i) (hist s) \<noteq> []"
        "hd (callsOf (Task i) (hist s)) = CGet (Name (ws ! i))" by auto
      then show ?thesis using \<open>j = i\<close> ib i t by (simp add: callsOf_append)
    qed
  qed
  with len show ?thesis by (simp add: task_inv_def)
qed

lemma task_inv_eq:
  assumes "tasks s' = tasks s" and "hist s' = hist s"
  shows "task_inv ws s' = task_inv ws s"
  using assms by (simp add: task_inv_def)

lemma task_inv_task_step:
  assumes "task_inv ws s"
  shows "task_inv ws (task_step w v i s)"
proof (cases rule: task_step_cases [of w v i s])
  case idle
  with assms show ?thesis by simp
next
  case (fetch name p e)
  have "task_inv ws (s\<lparr>hist := hist s @ [(Task i, CGet name)], tasks := (tasks s)[i := Test p]\<rparr>)"
    using assms fetch(2,3) by (intro task_inv_update) simp_all
  moreover have "task_inv ws (task_step w v i s) =
      task_inv ws (s\<lparr>hist := hist s @ [(Task i, CGet name)], tasks := (tasks s)[i := Test p]\<rparr>)"
    using fetch(5) by (intro task_inv_eq) simp_all
  ultimately show ?thesis by simp
next
  case panic
  then have "task_inv ws (task_step w v i s) = task_inv ws s"
    by (intro task_inv_eq) simp_all
  with assms show ?thesis by simp
next
  case (test_ok mach)
  have "task_inv ws (s\<lparr>hist := hist s @ [], tasks := (tasks s)[i := Submit mach]\<rparr>)"
    using assms test_ok(2,3) by (intro task_inv_update) simp_all
  with test_ok show ?thesis by simp
next
  case (test_skip p)
  have "task_inv ws (s\<lparr>hist := hist s @ [], tasks := (tasks s)[i := Send]\<rparr>)"
    using assms test_skip(2,3) by (intro task_inv_update) simp_all
  with test_skip show ?thesis by simp
next
  case (submit mach t)
  have "task_inv ws (s\<lparr>hist := hist s @ [(Task i, CUpdate (mach\<lparr>Kubelet := v\<rparr>))],
      tasks := (tasks s)[i := t]\<rparr>)"
    using assms submit(2,3,4) by (intro task_inv_update) auto
  with submit show ?thesis by simp
next
  case (timeout name)
  have "task_inv ws (s\<lparr>hist := hist s @ [], tasks := (tasks s)[i := Send]\<rparr>)"
    using assms timeout(2,3) by (intro task_inv_update) simp_all
  with timeout show ?thesis by simp
next
  case (poll name k new t)
  have "task_inv ws (s\<lparr>hist := hist s @ new, tasks := (tasks s)[i := t]\<rparr>)"
    using assms poll(2,3,4,5) by (intro task_inv_update) (auto simp: pollCalls_def)
  with poll show ?thesis by simp
next
  case send
  have "task_inv ws (s\<lparr>hist := hist s @ [], tasks := (tasks s)[i := Finished]\<rparr>)"
    using assms send(2,3) by (intro task_inv_update) simp_all
  moreover have "task_inv ws (task_step w v i s) =
      task_inv ws (s\<lparr>hist := hist s @ [], tasks := (tasks s)[i := Finished]\<rparr>)"
    using send(5) by (intro task_inv_eq) simp_all
  ultimately show ?thesis by simp
qed

lemma task_inv_step: "task_inv ws s \<Longrightarrow> task_inv ws (step w v a s)"
proof (cases a)
  case Main
  assume "task_inv ws s"
  with main_step_frame [of w s] have "task_inv ws (main_step w s)"
    by (simp add: task_inv_eq [of "main_step w s" s])
  with Main show ?thesis by simp
next
  case (Task i)
  assume "task_inv ws s"
  with Task show ?thesis by (simp add: task_inv_task_step)
qed

text \<open>The goroutines make no call in the name of the calling goroutine.\<close>

lemma task_step_hist:
  "\<exists>new. hist (task_step w v i s) = hist s @ new \<and> (\<forall>e \<in> set new. fst e = Task i)"
proof (cases rule: task_step_cases [of w v i s])
  case (poll name k new t)
  then show ?thesis by (auto simp: pollCalls_def)
qed auto

lemma step_callsOf_Main: "callsOf Main (hist (step w v a s)) = callsOf Main (hist s)"
proof (cases a)
  case Main
  with main_step_frame [of w s] show ?thesis by simp
next
  case (Task i)
  obtain new where "hist (task_step w v i s) = hist s @ new" "\<forall>e \<in> set new. fst e = Task i"
    using task_step_hist by blast
  with Task show ?thesis by (simp add: callsOf_append callsOf_other [of new "Task i"])
qed

lemma run_callsOf_Main: "callsOf Main (hist (run w v sched s)) = callsOf Main (hist s)"
  by (induction sched arbitrary: s) (simp_all add: step_callsOf_Main)



section \<open>The state in which the goroutines start\<close>

lemma callsOf_Main_only:
  assumes "\<forall>e \<in> set h. fst e = Main"
  shows "callsOf (Task i) h = []"
  using assms by (intro callsOf_other [of h Main]) simp_all

lemma task_inv_fanout:
  assumes "\<forall>e \<in> set h. fst e = Main"
  shows "task_inv (workers w items) (fanout w items e h)"
  using callsOf_Main_only [OF assms]
  by (simp add: task_inv_def fanout_def workers_def)


lemma find_first:
  assumes "\<forall>m \<in> set pre. \<not> P m" and "P x"
  shows "find P (pre @ x # post) = Some x"
  using assms by (induction pre) simp_all

lemma pollCalls_Main_only: "pollCalls Main polls \<Longrightarrow> \<forall>e \<in> set polls. fst e = Main"
  by (simp add: pollCalls_def)

lemma pollCalls_callsOf:
  assumes "pollCalls a polls"
  shows "callsOf a polls = map snd polls \<and> (\<forall>c \<in> set (map snd polls). \<not> isUpdate c)"
proof -
  from assms have "filter (\<lambda>e. fst e = a) polls = polls"
    by (simp add: pollCalls_def filter_id_conv)
  with assms show ?thesis by (auto simp: callsOf_def pollCalls_def)
qed

section \<open>The function returns\<close>

text \<open>
  There is an undisturbed schedule under which the function returns: the goroutines
  run one after the other, each to its end, and the loop runs after them.
\<close>

lemma run_append: "run w v (xs @ ys) s = run w v ys (run w v xs s)"
  by (induction xs arbitrary: s) simp_all

lemma undisturbed_append:
  "undisturbed w v (xs @ ys) s \<longleftrightarrow> undisturbed w v xs s \<and> undisturbed w v ys (run w v xs s)"
  by (induction xs arbitrary: s) simp_all

lemma undisturbed_Main: "undisturbed w v (replicate k Main) s"
  by (induction k arbitrary: s) (simp_all add: disturbs_def)

lemma receiving_not_disturbed: "coord s = Receiving rest \<Longrightarrow> \<not> disturbs s a"
  by (cases a) (simp_all add: disturbs_def)

lemma task_step_others: "j \<noteq> i \<Longrightarrow> tasks (task_step w v i s) ! j = tasks s ! j"
  by (cases rule: task_step_cases [of w v i s]) simp_all

lemma task_step_progress:
  assumes "i < length (tasks s)" and "coord s = Receiving rest" and "tasks s ! i \<noteq> Finished"
    and "tasks s ! i = Send \<Longrightarrow> length (errors s) < cap s" and "alone i s"
  shows "rank (pollChecks w) (tasks (task_step w v i s) ! i) < rank (pollChecks w) (tasks s ! i) \<and>
         coord (task_step w v i s) = Receiving rest \<and> alone i (task_step w v i s)"
proof (cases "tasks s ! i")
  case (Fetch name)
  obtain p e where r: "getResult w (hist s) name = (p, e)"
    by (cases "getResult w (hist s) name")
  then have "e = None \<longrightarrow> p \<noteq> None"
    by (auto simp: getResult_def split: sum.splits)
  with Fetch r assms(1,2) show ?thesis
    by (simp add: task_step_def alone_def)
next
  case (Test p)
  show ?thesis
  proof (cases "err s = None")
    case True
    with Test assms(5) obtain mach where "p = Some mach" by (auto simp: alone_def)
    with Test True assms(1,2) show ?thesis by (simp add: task_step_def alone_def)
  next
    case False
    with Test assms(1,2) show ?thesis by (auto simp: task_step_def alone_def)
  qed
next
  case (Submit mach)
  with assms(1,2) show ?thesis
    by (cases "machUpdate w (hist s) (mach\<lparr>Kubelet := v\<rparr>)")
      (simp_all add: task_step_def alone_def)
next
  case (Polling name n)
  show ?thesis
  proof (cases n)
    case 0
    with Polling assms(1,2) show ?thesis by (simp add: task_step_def alone_def)
  next
    case (Suc k)
    obtain r h' where "ignoreErr (checkMachineReady w (Task i) name v) (hist s) = (r, h')"
      by (cases "ignoreErr (checkMachineReady w (Task i) name v) (hist s)")
    with Polling Suc assms(1,2) show ?thesis
      by (cases "poll_attempt (pollStrict w) r") (simp_all add: task_step_def alone_def)
  qed
next
  case Send
  with assms(1,2,4) show ?thesis by (simp add: task_step_def alone_def)
next
  case Finished
  with assms(3) show ?thesis by simp
qed

text \<open>While the loop stands at its head, the channel has room for the value of a
  goroutine that has not finished.\<close>

lemma send_enabled:
  assumes inv: "chan_inv w n s" and rec: "coord s = Receiving rest"
    and i: "i < length (tasks s)" and nf: "tasks s ! i \<noteq> Finished"
  shows "length (errors s) < cap s"
proof -
  from inv rec have "delivered s = replicate (n - length (workers w rest)) None @ errors s"
    by (simp add: chan_inv_def)
  then have "length (delivered s) = (n - length (workers w rest)) + length (errors s)"
    by (metis length_append length_replicate)
  then have "length (errors s) \<le> length (delivered s)" by simp
  also from inv have "\<dots> = length (filter (\<lambda>t. t = Finished) (tasks s))"
    unfolding chan_inv_def count_inv_def by blast
  also have "\<dots> < length (tasks s)"
  proof (rule length_filter_less)
    from i show "tasks s ! i \<in> set (tasks s)" by simp
    from nf show "\<not> tasks s ! i = Finished" .
  qed
  also from inv have "\<dots> \<le> cap s" by (simp add: chan_inv_def count_inv_def)
  finally show ?thesis .
qed

lemma finish_task:
  assumes "chan_inv w n s" and "coord s = Receiving rest" and "i < n" and "alone i s"
  shows "\<exists>k. tasks (run w v (replicate k (Task i)) s) ! i = Finished \<and>
             (\<forall>j. j \<noteq> i \<longrightarrow> tasks (run w v (replicate k (Task i)) s) ! j = tasks s ! j) \<and>
             coord (run w v (replicate k (Task i)) s) = Receiving rest \<and>
             chan_inv w n (run w v (replicate k (Task i)) s) \<and>
             undisturbed w v (replicate k (Task i)) s"
  using assms
proof (induction "rank (pollChecks w) (tasks s ! i)" arbitrary: s rule: less_induct)
  case less
  show ?case
  proof (cases "tasks s ! i = Finished")
    case True
    with less.prems have "tasks (run w v (replicate 0 (Task i)) s) ! i = Finished \<and>
        (\<forall>j. j \<noteq> i \<longrightarrow> tasks (run w v (replicate 0 (Task i)) s) ! j = tasks s ! j) \<and>
        coord (run w v (replicate 0 (Task i)) s) = Receiving rest \<and>
        chan_inv w n (run w v (replicate 0 (Task i)) s) \<and>
        undisturbed w v (replicate 0 (Task i)) s"
      by simp
    then show ?thesis by blast
  next
    case False
    let ?s1 = "task_step w v i s"
    from less.prems have len: "i < length (tasks s)" by (simp add: chan_inv_def count_inv_def)
    from less.prems(1,2) len False have "length (errors s) < cap s" by (rule send_enabled)
    with len less.prems(2,4) False
    have prog: "rank (pollChecks w) (tasks ?s1 ! i) < rank (pollChecks w) (tasks s ! i)"
      and c1: "coord ?s1 = Receiving rest" and a1: "alone i ?s1"
      using task_step_progress [of i s rest w v] by simp_all
    from less.prems(2) have quiet: "\<not> disturbs s (Task i)" by (rule receiving_not_disturbed)
    with less.prems(1) have "chan_inv w n (step w v (Task i) s)" by (rule chan_inv_step)
    then have "chan_inv w n ?s1" by simp
    with prog c1 a1 obtain k where k:
      "tasks (run w v (replicate k (Task i)) ?s1) ! i = Finished"
      "\<forall>j. j \<noteq> i \<longrightarrow> tasks (run w v (replicate k (Task i)) ?s1) ! j = tasks ?s1 ! j"
      "coord (run w v (replicate k (Task i)) ?s1) = Receiving rest"
      "chan_inv w n (run w v (replicate k (Task i)) ?s1)"
      "undisturbed w v (replicate k (Task i)) ?s1"
      using less.hyps [of ?s1] less.prems(3) by blast
    have "run w v (replicate (Suc k) (Task i)) s = run w v (replicate k (Task i)) ?s1"
      by simp
    with k quiet task_step_others [of _ i w v s]
    have "tasks (run w v (replicate (Suc k) (Task i)) s) ! i = Finished \<and>
        (\<forall>j. j \<noteq> i \<longrightarrow> tasks (run w v (replicate (Suc k) (Task i)) s) ! j = tasks s ! j) \<and>
        coord (run w v (replicate (Suc k) (Task i)) s) = Receiving rest \<and>
        chan_inv w n (run w v (replicate (Suc k) (Task i)) s) \<and>
        undisturbed w v (replicate (Suc k) (Task i)) s"
      by simp
    then show ?thesis by blast
  qed
qed

lemma finish_all:
  assumes "chan_inv w n s" and "coord s = Receiving rest"
    and "\<forall>i<n. \<exists>name. tasks s ! i = Fetch name" and "m \<le> n"
  shows "\<exists>sched. (\<forall>i<m. tasks (run w v sched s) ! i = Finished) \<and>
           (\<forall>i. m \<le> i \<longrightarrow> tasks (run w v sched s) ! i = tasks s ! i) \<and>
           coord (run w v sched s) = Receiving rest \<and> chan_inv w n (run w v sched s) \<and>
           undisturbed w v sched s"
  using assms(4)
proof (induction m)
  case 0
  from assms(1,2) have "(\<forall>i<0. tasks (run w v [] s) ! i = Finished) \<and>
      (\<forall>i. 0 \<le> i \<longrightarrow> tasks (run w v [] s) ! i = tasks s ! i) \<and>
      coord (run w v [] s) = Receiving rest \<and> chan_inv w n (run w v [] s) \<and>
      undisturbed w v [] s"
    by simp
  then show ?case by blast
next
  case (Suc m)
  then obtain sched where sched: "\<forall>i<m. tasks (run w v sched s) ! i = Finished"
    "\<forall>i. m \<le> i \<longrightarrow> tasks (run w v sched s) ! i = tasks s ! i"
    "coord (run w v sched s) = Receiving rest" "chan_inv w n (run w v sched s)"
    "undisturbed w v sched s"
    by auto
  let ?s1 = "run w v sched s"
  from Suc.prems have mn: "m < n" by simp
  with assms(3) sched(2) obtain name where "tasks ?s1 ! m = Fetch name" by auto
  then have "alone m ?s1" by (simp add: alone_def)
  with sched mn obtain k where k:
    "tasks (run w v (replicate k (Task m)) ?s1) ! m = Finished"
    "\<forall>j. j \<noteq> m \<longrightarrow> tasks (run w v (replicate k (Task m)) ?s1) ! j = tasks ?s1 ! j"
    "coord (run w v (replicate k (Task m)) ?s1) = Receiving rest"
    "chan_inv w n (run w v (replicate k (Task m)) ?s1)"
    "undisturbed w v (replicate k (Task m)) ?s1"
    using finish_task [of w n ?s1 rest m v] by blast
  let ?all = "sched @ replicate k (Task m)"
  have fin: "tasks (run w v ?all s) ! i = Finished" if "i < Suc m" for i
  proof (cases "i = m")
    case True
    with k(1) show ?thesis by (simp add: run_append)
  next
    case False
    with that have "i < m" by simp
    with sched(1) k(2) False show ?thesis by (simp add: run_append)
  qed
  have rest: "tasks (run w v ?all s) ! i = tasks s ! i" if "Suc m \<le> i" for i
    using that sched(2) k(2) by (simp add: run_append)
  from k(3,4,5) sched(5) fin rest
  have "(\<forall>i<Suc m. tasks (run w v ?all s) ! i = Finished) \<and>
      (\<forall>i. Suc m \<le> i \<longrightarrow> tasks (run w v ?all s) ! i = tasks s ! i) \<and>
      coord (run w v ?all s) = Receiving rest \<and> chan_inv w n (run w v ?all s) \<and>
      undisturbed w v ?all s"
    by (simp add: run_append undisturbed_append)
  then show ?case by blast
qed

lemma run_Main_Returned:
  "coord s = Returned r \<Longrightarrow> coord (run w v (replicate k Main) s) = Returned r"
  by (induction k arbitrary: s) (simp_all add: main_step_def)

lemma main_returns:
  assumes "coord s = Receiving rest" and "length (errors s) = length (workers w rest)"
  shows "\<exists>k r. coord (run w v (replicate k Main) s) = Returned r"
  using assms
proof (induction rest arbitrary: s)
  case Nil
  then have "coord (run w v (replicate 1 Main) s) = Returned None"
    by (simp add: main_step_def)
  then show ?case by blast
next
  case (Cons machine rest)
  show ?case
  proof (cases "IsMaster w machine")
    case True
    with Cons.prems have "coord (main_step w s) = Receiving rest"
      and "length (errors (main_step w s)) = length (workers w rest)"
      by (simp_all add: main_step_def workers_def)
    from Cons.IH [OF this] obtain k r where
      "coord (run w v (replicate k Main) (main_step w s)) = Returned r" by blast
    then have "coord (run w v (replicate (Suc k) Main) s) = Returned r" by simp
    then show ?thesis by blast
  next
    case False
    with Cons.prems obtain x xs where ch: "errors s = x # xs"
      by (cases "errors s") (simp_all add: workers_def)
    let ?s1 = "main_step w s"
    from Cons.prems False ch have s1: "coord ?s1 = Testing rest" "err ?s1 = x" "errors ?s1 = xs"
      by (simp_all add: main_step_def)
    show ?thesis
    proof (cases x)
      case None
      with s1 have "coord (main_step w ?s1) = Receiving rest"
        and "errors (main_step w ?s1) = xs"
        by (simp_all add: main_step_def)
      moreover from Cons.prems False ch have "length xs = length (workers w rest)"
        by (simp add: workers_def)
      ultimately obtain k r where
        "coord (run w v (replicate k Main) (main_step w ?s1)) = Returned r"
        using Cons.IH [of "main_step w ?s1"] by auto
      then have "coord (run w v (replicate (Suc (Suc k)) Main) s) = Returned r" by simp
      then show ?thesis by blast
    next
      case (Some e)
      with s1 have "coord (main_step w ?s1) = Returning" "err (main_step w ?s1) = Some e"
        by (simp_all add: main_step_def)
      then have "coord (main_step w (main_step w ?s1)) = Returned (Some e)"
        by (simp add: main_step_def)
      then have "coord (run w v (replicate 3 Main) s) = Returned (Some e)"
        by (simp add: numeral_3_eq_3)
      then show ?thesis by blast
    qed
  qed
qed

lemma sequential_returns:
  "\<exists>sched r. undisturbed w v sched (fanout w items e h) \<and>
     coord (run w v sched (fanout w items e h)) = Returned r"
proof -
  let ?n = "length (workers w items)"
  let ?s0 = "fanout w items e h"
  have "chan_inv w ?n ?s0" by (rule chan_inv_fanout)
  moreover have "coord ?s0 = Receiving items" by (simp add: fanout_def)
  moreover have "\<forall>i<?n. \<exists>name. tasks ?s0 ! i = Fetch name"
    by (simp add: fanout_def workers_def)
  ultimately obtain sched where fin: "\<forall>i<?n. tasks (run w v sched ?s0) ! i = Finished"
    and rec: "coord (run w v sched ?s0) = Receiving items"
    and inv: "chan_inv w ?n (run w v sched ?s0)" and quiet: "undisturbed w v sched ?s0"
    using finish_all [of w ?n ?s0 items ?n v] by blast
  let ?s1 = "run w v sched ?s0"
  from inv have len: "length (tasks ?s1) = ?n" by (simp add: chan_inv_def count_inv_def)
  with fin have "\<forall>t \<in> set (tasks ?s1). t = Finished"
    by (auto simp: in_set_conv_nth)
  then have "filter (\<lambda>t. t = Finished) (tasks ?s1) = tasks ?s1" by (simp add: filter_id_conv)
  with inv len have dl: "length (delivered ?s1) = ?n" by (simp add: chan_inv_def count_inv_def)
  from inv rec have "delivered ?s1 = replicate (?n - ?n) None @ errors ?s1"
    by (simp add: chan_inv_def)
  with dl have "length (errors ?s1) = ?n" by simp
  with rec obtain k r where "coord (run w v (replicate k Main) ?s1) = Returned r"
    using main_returns by blast
  then have "coord (run w v (sched @ replicate k Main) ?s0) = Returned r"
    by (simp add: run_append)
  moreover from quiet have "undisturbed w v (sched @ replicate k Main) ?s0"
    by (simp add: undisturbed_append undisturbed_Main)
  ultimately show ?thesis by blast
qed

section \<open>The listing, the control plane and the errors that are lost\<close>

lemmas ex_defs = exWorld_def exMachine_def exNode_def exThree_def exTwo_def

lemmas run_defs = UpgradeCluster_def upgradeControlPlane_def checkMachineReady_def ignoreErr_def
  fanout_def returned_def task_step_def main_step_def getResult_def Let_def numeral_2_eq_2

text \<open>
  C4. When the listing holds no control-plane machine, the function returns the error
  "No master is found." whatever the schedule; the call of \<^verbatim>\<open>List\<close> is the only call made,
  so that no \<^verbatim>\<open>Update\<close> is issued, and no goroutine is started.
\<close>

theorem no_master_no_update:
  assumes "machList w [] = Inr items" and "\<forall>m \<in> set items. \<not> IsMaster w m"
  shows "coord (UpgradeCluster w v sched) = Returned (Some (Errorf ''No master is found.'')) \<and>
         hist (UpgradeCluster w v sched) = [(Main, CList)] \<and>
         tasks (UpgradeCluster w v sched) = []"
proof -
  from assms(2) have "find (IsMaster w) items = None" by (simp add: find_None_iff)
  with assms(1) show ?thesis
    by (simp add: UpgradeCluster_no_master returned_def)
qed

theorem no_master_no_update_witness:
  "coord (UpgradeCluster (exWorld (Inr [exMachine ''w1'' [], exMachine ''w2'' []]) [] [] [])
     ''1.2.3'' [Task 0, Task 1, Main]) = Returned (Some (Errorf ''No master is found.'')) \<and>
   hist (UpgradeCluster (exWorld (Inr [exMachine ''w1'' [], exMachine ''w2'' []]) [] [] [])
     ''1.2.3'' [Task 0, Task 1, Main]) = [(Main, CList)] \<and>
   tasks (UpgradeCluster (exWorld (Inr [exMachine ''w1'' [], exMachine ''w2'' []]) [] [] [])
     ''1.2.3'' [Task 0, Task 1, Main]) = []"
  by (rule no_master_no_update [where items = "[exMachine ''w1'' [], exMachine ''w2'' []]"])
    (simp_all add: ex_defs)

text \<open>
  C3, as the code has it. When \<^verbatim>\<open>List\<close> fails, the function returns the error of
  \<^verbatim>\<open>List\<close>; when \<^verbatim>\<open>List\<close> returns an empty set of machines, the function returns the
  error "No master is found.", the one it returns for any set without a control-plane
  machine. In both cases no further call is made.
\<close>

theorem list_failure_or_empty:
  "(machList w [] = Inl e \<longrightarrow>
      coord (UpgradeCluster w v sched) = Returned (Some e) \<and>
      hist (UpgradeCluster w v sched) = [(Main, CList)]) \<and>
   (machList w [] = Inr [] \<longrightarrow>
      coord (UpgradeCluster w v sched) = Returned (Some (Errorf ''No master is found.'')) \<and>
      hist (UpgradeCluster w v sched) = [(Main, CList)])"
  by (simp add: UpgradeCluster_list_error UpgradeCluster_no_master returned_def)

theorem list_failure_or_empty_witness:
  "coord (UpgradeCluster (exWorld (Inl (ClientError ''unreachable'')) [] [] []) ''1.2.3'' [Main]) =
     Returned (Some (ClientError ''unreachable'')) \<and>
   hist (UpgradeCluster (exWorld (Inr []) [] [] []) ''1.2.3'' [Main]) = [(Main, CList)]"
  using list_failure_or_empty [of "exWorld (Inl (ClientError ''unreachable'')) [] [] []"
      "ClientError ''unreachable''" "''1.2.3''" "[Main]"]
    list_failure_or_empty [of "exWorld (Inr []) [] [] []" e "''1.2.3''" "[Main]"]
  by (simp add: exWorld_def)

text \<open>
  The claim as stated fails on the empty listing: the error returned is the one built
  by \<^verbatim>\<open>fmt.Errorf\<close> for a listing without control-plane machine, not an error of the
  machine interface.
\<close>

theorem empty_list_counterexample:
  "coord (UpgradeCluster (exWorld (Inr []) [] [] []) ''1.2.3'' []) =
     Returned (Some (Errorf ''No master is found.'')) \<and>
   coord (UpgradeCluster (exWorld (Inr []) [] [] []) ''1.2.3'' []) =
     coord (UpgradeCluster (exWorld (Inr [exMachine ''w1'' []]) [] [] []) ''1.2.3'' [])"
  by (simp add: ex_defs run_defs)

text \<open>
  C1, at a failing input. One control-plane machine and one worker, whose update is
  rejected: the goroutine of the worker calls \<^verbatim>\<open>Update\<close>, which fails, and then
  delivers nil; \<^verbatim>\<open>UpgradeCluster\<close> returns nil. The same happens when the update succeeds
  and the node of the worker never reaches the target version: after the two checks of
  the poll the goroutine delivers nil.
\<close>

theorem worker_failure_delivers_nil:
  "(\<forall>h. machUpdate (exWorld (Inr exTwo) [] [''w1''] []) h
          ((exMachine ''w1'' [])\<lparr>Kubelet := ''1.2.3''\<rparr>) = Inl (ClientError ''w1'')) \<and>
   callsOf (Task 0) (hist (UpgradeCluster (exWorld (Inr exTwo) [] [''w1''] []) ''1.2.3''
     [Task 0, Task 0, Task 0, Task 0, Main, Main, Main, Main])) =
     [CGet ''w1'', CUpdate ((exMachine ''w1'' [])\<lparr>Kubelet := ''1.2.3''\<rparr>)] \<and>
   delivered (UpgradeCluster (exWorld (Inr exTwo) [] [''w1''] []) ''1.2.3''
     [Task 0, Task 0, Task 0, Task 0, Main, Main, Main, Main]) = [None] \<and>
   coord (UpgradeCluster (exWorld (Inr exTwo) [] [''w1''] []) ''1.2.3''
     [Task 0, Task 0, Task 0, Task 0, Main, Main, Main, Main]) = Returned None \<and>
   callsOf (Task 0) (hist (UpgradeCluster (exWorld (Inr exTwo) [] [] [''node-w1'']) ''1.2.3''
     [Task 0, Task 0, Task 0, Task 0, Task 0, Task 0, Task 0, Main, Main, Main, Main])) =
     [CGet ''w1'', CUpdate ((exMachine ''w1'' [])\<lparr>Kubelet := ''1.2.3''\<rparr>),
      CGet ''w1'', CNodeGet ''node-w1'', CGet ''w1'', CNodeGet ''node-w1''] \<and>
   delivered (UpgradeCluster (exWorld (Inr exTwo) [] [] [''node-w1'']) ''1.2.3''
     [Task 0, Task 0, Task 0, Task 0, Task 0, Task 0, Task 0, Main, Main, Main, Main]) = [None] \<and>
   coord (UpgradeCluster (exWorld (Inr exTwo) [] [] [''node-w1'']) ''1.2.3''
     [Task 0, Task 0, Task 0, Task 0, Task 0, Task 0, Task 0, Main, Main, Main, Main]) = Returned None"
  by (simp add: ex_defs run_defs callsOf_def)

text \<open>
  C5, at a failing input. One control-plane machine and one worker; the node of the
  control-plane machine never reaches the target version, so that the poll of the
  control plane ends with the timeout. The function goes on all the same: the
  goroutine of the worker fetches and updates its machine, and the function returns
  nil.
\<close>

theorem control_plane_timeout_goes_on:
  "fst (upgradeControlPlane (exWorld (Inr exTwo) [] [] [''node-m0'']) ''1.2.3''
      (exMachine ''m0'' ''1.2.2'') [(Main, CList)]) = Some ErrWaitTimeout \<and>
   callsOf (Task 0) (hist (UpgradeCluster (exWorld (Inr exTwo) [] [] [''node-m0'']) ''1.2.3''
     [Task 0, Task 0, Task 0, Task 0, Task 0, Main, Main, Main, Main])) =
     [CGet ''w1'', CUpdate ((exMachine ''w1'' [])\<lparr>Kubelet := ''1.2.3''\<rparr>),
      CGet ''w1'', CNodeGet ''node-w1''] \<and>
   coord (UpgradeCluster (exWorld (Inr exTwo) [] [] [''node-m0'']) ''1.2.3''
     [Task 0, Task 0, Task 0, Task 0, Task 0, Main, Main, Main, Main]) = Returned None"
  by (simp add: ex_defs run_defs callsOf_def)

section \<open>The value the function returns\<close>

lemma UpgradeCluster_start:
  assumes "machList w [] = Inr items" and "find (IsMaster w) items = Some master"
  shows "\<exists>h. (\<forall>sched. UpgradeCluster w v sched = run w v sched (fanout w items None h)) \<and>
           UpgradeCluster w v [] = fanout w items None h"
proof -
  obtain polls where "\<forall>sched. UpgradeCluster w v sched =
      run w v sched (fanout w items None
        ((Main, CList) # (Main, CUpdate (master\<lparr>Kubelet := v, ControlPlane := v\<rparr>)) # polls))"
    using UpgradeCluster_master [OF assms] by blast
  then show ?thesis by (metis run.simps(1))
qed

text \<open>
  C2, as the code has it. The listing holds a control-plane machine, whose update and
  poll succeed. There is an undisturbed schedule under which the function returns; and
  whenever the function has returned under an undisturbed schedule, the value returned
  is the first value that is not nil among the values sent on the channel, in the order
  in which they were sent, and it is nil only when every goroutine has sent nil. What
  the function returns under a schedule that is not undisturbed is not stated.
\<close>

theorem returns_first_delivered:
  assumes "machList w [] = Inr items" and "find (IsMaster w) items = Some master"
    and "fst (upgradeControlPlane w v master [(Main, CList)]) = None"
  shows "(\<exists>some r. undisturbed w v some (UpgradeCluster w v []) \<and>
            coord (UpgradeCluster w v some) = Returned r) \<and>
         (undisturbed w v sched (UpgradeCluster w v []) \<longrightarrow>
            (\<forall>r. coord (UpgradeCluster w v sched) = Returned r \<longrightarrow>
               r = firstError (delivered (UpgradeCluster w v sched)) \<and>
               (r = None \<longrightarrow>
                  delivered (UpgradeCluster w v sched) =
                    replicate (length (workers w items)) None)))"
proof -
  let ?n = "length (workers w items)"
  obtain h where run: "\<And>sched. UpgradeCluster w v sched = run w v sched (fanout w items None h)"
    and start: "UpgradeCluster w v [] = fanout w items None h"
    using UpgradeCluster_start [OF assms(1,2)] by blast
  obtain some r where "undisturbed w v some (fanout w items None h)"
    and "coord (run w v some (fanout w items None h)) = Returned r"
    using sequential_returns by blast
  then have live: "\<exists>some r. undisturbed w v some (UpgradeCluster w v []) \<and>
      coord (UpgradeCluster w v some) = Returned r"
    unfolding start using run by auto
  have "r = firstError (delivered (UpgradeCluster w v sched)) \<and>
      (r = None \<longrightarrow> delivered (UpgradeCluster w v sched) = replicate ?n None)"
    if quiet: "undisturbed w v sched (UpgradeCluster w v [])"
      and ret: "coord (UpgradeCluster w v sched) = Returned r" for r
  proof -
    from quiet have "chan_inv w ?n (run w v sched (fanout w items None h))"
      unfolding start by (rule chan_inv_run)
    then have "chan_inv w ?n (UpgradeCluster w v sched)" by (simp only: run)
    then show ?thesis using ret by (rule chan_inv_returned)
  qed
  with live show ?thesis by blast
qed

theorem returns_first_delivered_witness:
  "firstError (delivered (UpgradeCluster (exWorld (Inr exThree) [''w1'', ''w2''] [] []) ''1.2.3''
     [Task 1, Task 1, Task 1, Task 0, Task 0, Task 0, Main, Main, Main, Main])) =
     Some (ClientError ''w2'') \<and>
   delivered (UpgradeCluster (exWorld (Inr exThree) [] [] []) ''1.2.3''
     [Task 1, Task 0, Task 1, Task 0, Task 0, Task 1, Task 1, Task 0, Task 0, Task 1,
      Main, Main, Main, Main, Main, Main]) =
     replicate (length (workers (exWorld (Inr exThree) [] [] []) exThree)) None"
proof -
  let ?bad = "exWorld (Inr exThree) [''w1'', ''w2''] [] []"
  let ?good = "exWorld (Inr exThree) [] [] []"
  let ?s1 = "[Task 1, Task 1, Task 1, Task 0, Task 0, Task 0, Main, Main, Main, Main]"
  let ?s2 = "[Task 1, Task 0, Task 1, Task 0, Task 0, Task 1, Task 1, Task 0, Task 0, Task 1,
      Main, Main, Main, Main, Main, Main]"
  have bad: "machList ?bad [] = Inr exThree"
    "find (IsMaster ?bad) exThree = Some (exMachine ''m0'' ''1.2.2'')"
    "fst (upgradeControlPlane ?bad ''1.2.3'' (exMachine ''m0'' ''1.2.2'') [(Main, CList)]) = None"
    by (simp_all add: ex_defs run_defs)
  have good: "machList ?good [] = Inr exThree"
    "find (IsMaster ?good) exThree = Some (exMachine ''m0'' ''1.2.2'')"
    "fst (upgradeControlPlane ?good ''1.2.3'' (exMachine ''m0'' ''1.2.2'') [(Main, CList)]) = None"
    by (simp_all add: ex_defs run_defs)
  have q1: "undisturbed ?bad ''1.2.3'' ?s1 (UpgradeCluster ?bad ''1.2.3'' [])"
    by (simp add: ex_defs run_defs disturbs_def)
  have q2: "undisturbed ?good ''1.2.3'' ?s2 (UpgradeCluster ?good ''1.2.3'' [])"
    by (simp add: ex_defs run_defs disturbs_def)
  have r1: "coord (UpgradeCluster ?bad ''1.2.3'' ?s1) = Returned (Some (ClientError ''w2''))"
    by (simp add: ex_defs run_defs)
  have r2: "coord (UpgradeCluster ?good ''1.2.3'' ?s2) = Returned None"
    by (simp add: ex_defs run_defs)
  from returns_first_delivered [OF bad, of ?s1] q1 r1
  have "firstError (delivered (UpgradeCluster ?bad ''1.2.3'' ?s1)) = Some (ClientError ''w2'')"
    by simp
  moreover from returns_first_delivered [OF good, of ?s2] q2 r2
  have "delivered (UpgradeCluster ?good ''1.2.3'' ?s2) = replicate (length (workers ?good exThree)) None"
    by blast
  ultimately show ?thesis by blast
qed

text \<open>
  The claim as stated fails: both workers fail to be fetched, the first of the listing
  with the error \<open>w1\<close> and the second with the error \<open>w2\<close>. When the goroutine of the
  second worker sends first, the function returns the error \<open>w2\<close>; when the goroutine of
  the first worker sends first, it returns the error \<open>w1\<close>. Both schedules are
  undisturbed.
\<close>

theorem listing_order_counterexample:
  "delivered (UpgradeCluster (exWorld (Inr exThree) [''w1'', ''w2''] [] []) ''1.2.3''
     [Task 1, Task 1, Task 1, Task 0, Task 0, Task 0, Main, Main, Main, Main]) =
     [Some (ClientError ''w2''), Some (ClientError ''w1'')] \<and>
   coord (UpgradeCluster (exWorld (Inr exThree) [''w1'', ''w2''] [] []) ''1.2.3''
     [Task 1, Task 1, Task 1, Task 0, Task 0, Task 0, Main, Main, Main, Main]) =
     Returned (Some (ClientError ''w2'')) \<and>
   coord (UpgradeCluster (exWorld (Inr exThree) [''w1'', ''w2''] [] []) ''1.2.3''
     [Task 0, Task 0, Task 0, Task 1, Task 1, Task 1, Main, Main, Main, Main]) =
     Returned (Some (ClientError ''w1''))"
  by (simp add: ex_defs run_defs)

text \<open>
  A schedule that is not undisturbed: the first worker fails to be fetched and sends
  its error, the loop receives it into \<^verbatim>\<open>err\<close>, the goroutine of the second worker then
  fetches its machine and line 140 writes nil to \<^verbatim>\<open>err\<close>, and the test of line 167 reads
  nil. The function returns nil although the first value sent was an error.
\<close>

lemma disturbed_run_passes_over_error:
  "\<not> undisturbed (exWorld (Inr exThree) [''w1''] [] []) ''1.2.3''
      [Task 0, Task 0, Task 0, Main, Main, Task 1, Main, Task 1, Task 1, Task 1, Task 1,
       Main, Main, Main]
      (UpgradeCluster (exWorld (Inr exThree) [''w1''] [] []) ''1.2.3'' []) \<and>
   delivered (UpgradeCluster (exWorld (Inr exThree) [''w1''] [] []) ''1.2.3''
      [Task 0, Task 0, Task 0, Main, Main, Task 1, Main, Task 1, Task 1, Task 1, Task 1,
       Main, Main, Main]) = [Some (ClientError ''w1''), None] \<and>
   coord (UpgradeCluster (exWorld (Inr exThree) [''w1''] [] []) ''1.2.3''
      [Task 0, Task 0, Task 0, Main, Main, Task 1, Main, Task 1, Task 1, Task 1, Task 1,
       Main, Main, Main]) = Returned None"
  by (simp add: ex_defs run_defs disturbs_def)

section \<open>The machines that are submitted\<close>

lemma callsOf_Main_start:
  assumes "pollCalls Main polls"
  shows "filter isUpdate (callsOf Main ((Main, CList) # (Main, CUpdate m) # polls)) = [CUpdate m]"
proof -
  from pollCalls_callsOf [OF assms] have "filter isUpdate (callsOf Main polls) = []"
    by (simp add: filter_empty_conv)
  then show ?thesis by (simp add: callsOf_def)
qed

lemma start_Main_only:
  assumes "pollCalls Main polls"
  shows "\<forall>e \<in> set ((Main, CList) # (Main, CUpdate m) # polls). fst e = Main"
  using pollCalls_Main_only [OF assms] by simp




text \<open>
  The run in which a goroutine whose \<^verbatim>\<open>Get\<close> failed goes on to \<^verbatim>\<open>Update\<close>: the \<^verbatim>\<open>Get\<close> of
  the first worker fails, the \<^verbatim>\<open>Get\<close> of the second succeeds and writes nil to \<^verbatim>\<open>err\<close>,
  and the first goroutine passes the test of line 141. It submits the machine its
  \<^verbatim>\<open>Get\<close> handed back with the error, here the empty one, with the kubelet version set.
\<close>

lemma failed_get_goes_on_to_update:
  "callsOf (Task 0) (hist (UpgradeCluster (exWorld (Inr exThree) [''w1''] [] []) ''1.2.3''
      [Task 0, Task 1, Task 0, Task 0])) =
     [CGet ''w1'',
      CUpdate \<lparr>Name = [], Kubelet = ''1.2.3'', ControlPlane = [], NodeRef = None\<rparr>]"
  by (simp add: ex_defs run_defs callsOf_def)

section \<open>More than one control-plane machine\<close>

text \<open>
  C9, as the code has it. When the listing holds control-plane machines, the first of
  them in the order of the listing is the one the calling goroutine submits, with both
  versions set, and that is the only \<^verbatim>\<open>Update\<close> the calling goroutine makes. The
  goroutines are started for the machines of the listing that are not control-plane
  machines, one for each and in their order: the first call of a goroutine is the
  \<^verbatim>\<open>Get\<close> of its machine by name. A further control-plane machine gets no goroutine.
\<close>

theorem first_master_only:
  assumes "machList w [] = Inr (pre @ master # post)"
    and "\<forall>m \<in> set pre. \<not> IsMaster w m" and "IsMaster w master"
  shows "filter isUpdate (callsOf Main (hist (UpgradeCluster w v sched))) =
           [CUpdate (master\<lparr>Kubelet := v, ControlPlane := v\<rparr>)] \<and>
         length (tasks (UpgradeCluster w v sched)) = length (workers w (pre @ post)) \<and>
         (\<forall>m \<in> set (workers w (pre @ post)). \<not> IsMaster w m) \<and>
         (\<forall>i. callsOf (Task i) (hist (UpgradeCluster w v sched)) \<noteq> [] \<longrightarrow>
            i < length (workers w (pre @ post)) \<and>
            hd (callsOf (Task i) (hist (UpgradeCluster w v sched))) =
              CGet (Name (workers w (pre @ post) ! i)))"
proof -
  let ?m = "master\<lparr>Kubelet := v, ControlPlane := v\<rparr>"
  let ?S = "UpgradeCluster w v sched"
  let ?items = "pre @ master # post"
  from assms(2,3) have "find (IsMaster w) ?items = Some master" by (rule find_first)
  with assms(1) obtain polls where polls: "pollCalls Main polls"
    and run: "?S = run w v sched (fanout w ?items None ((Main, CList) # (Main, CUpdate ?m) # polls))"
    using UpgradeCluster_master by blast
  let ?h = "(Main, CList) # (Main, CUpdate ?m) # polls"
  from assms(3) have ws: "workers w ?items = workers w (pre @ post)"
    by (simp add: workers_def)
  have "callsOf Main (hist ?S) = callsOf Main ?h"
    unfolding run by (simp add: run_callsOf_Main fanout_def)
  with callsOf_Main_start [OF polls] have one: "filter isUpdate (callsOf Main (hist ?S)) = [CUpdate ?m]"
    by simp
  have "task_inv (workers w ?items) ?S"
    unfolding run
    by (rule run_invariant [where P = "task_inv (workers w ?items)"])
      (simp_all add: task_inv_fanout [OF start_Main_only [OF polls]] task_inv_step)
  then have inv: "task_inv (workers w (pre @ post)) ?S" by (simp only: ws)
  then have len: "length (tasks ?S) = length (workers w (pre @ post))"
    by (simp add: task_inv_def)
  have calls: "i < length (workers w (pre @ post)) \<and>
      hd (callsOf (Task i) (hist ?S)) = CGet (Name (workers w (pre @ post) ! i))"
    if "callsOf (Task i) (hist ?S) \<noteq> []" for i
  proof -
    from inv have "if i < length (workers w (pre @ post))
          then (tasks ?S ! i = Fetch (Name (workers w (pre @ post) ! i)) \<and>
                callsOf (Task i) (hist ?S) = []) \<or>
               ((\<forall>n. tasks ?S ! i \<noteq> Fetch n) \<and> callsOf (Task i) (hist ?S) \<noteq> [] \<and>
                hd (callsOf (Task i) (hist ?S)) = CGet (Name (workers w (pre @ post) ! i)))
          else callsOf (Task i) (hist ?S) = []"
      unfolding task_inv_def by blast
    with that show ?thesis by (auto split: if_splits)
  qed
  have "\<forall>m \<in> set (workers w (pre @ post)). \<not> IsMaster w m"
    by (auto simp: workers_def)
  with one len calls show ?thesis by blast
qed

theorem first_master_only_witness:
  "filter isUpdate (callsOf Main (hist (UpgradeCluster (exWorld (Inr exTwoMasters) [] [] []) ''1.2.3''
       [Task 0, Task 0, Task 0, Task 0, Task 0, Main, Main, Main, Main, Main]))) =
     [CUpdate ((exMachine ''m0'' ''1.2.2'')\<lparr>Kubelet := ''1.2.3'', ControlPlane := ''1.2.3''\<rparr>)] \<and>
   length (tasks (UpgradeCluster (exWorld (Inr exTwoMasters) [] [] []) ''1.2.3''
       [Task 0, Task 0, Task 0, Task 0, Task 0, Main, Main, Main, Main, Main])) = 1 \<and>
   hd (callsOf (Task 0) (hist (UpgradeCluster (exWorld (Inr exTwoMasters) [] [] []) ''1.2.3''
       [Task 0, Task 0, Task 0, Task 0, Task 0, Main, Main, Main, Main, Main]))) = CGet ''w1''"
proof -
  let ?W = "exWorld (Inr exTwoMasters) [] [] []"
  have listing: "machList ?W [] =
      Inr ([] @ exMachine ''m0'' ''1.2.2'' # [exMachine ''m1'' ''1.2.2'', exMachine ''w1'' []])"
    by (simp add: exWorld_def exTwoMasters_def)
  have pre: "\<forall>m \<in> set []. \<not> IsMaster ?W m"
    by simp
  have master: "IsMaster ?W (exMachine ''m0'' ''1.2.2'')"
    by (simp add: ex_defs)
  have calls: "callsOf (Task 0) (hist (UpgradeCluster ?W ''1.2.3''
      [Task 0, Task 0, Task 0, Task 0, Task 0, Main, Main, Main, Main, Main])) \<noteq> []"
    by (simp add: ex_defs exTwoMasters_def run_defs callsOf_def)
  have ws: "workers ?W ([] @ [exMachine ''m1'' ''1.2.2'', exMachine ''w1'' []]) = [exMachine ''w1'' []]"
    by (simp add: ex_defs workers_def)
  from first_master_only [OF listing pre master, of "''1.2.3''"
      "[Task 0, Task 0, Task 0, Task 0, Task 0, Main, Main, Main, Main, Main]"] calls
  show ?thesis unfolding ws by (simp add: exMachine_def)
qed

text \<open>
  The claim as stated fails: of two control-plane machines and one worker, the second
  control-plane machine is not treated as a worker. One goroutine is started, for the
  worker; no call is made for the second control-plane machine, and the function
  returns nil.
\<close>

theorem second_master_counterexample:
  "tasks (UpgradeCluster (exWorld (Inr exTwoMasters) [] [] []) ''1.2.3''
     [Task 0, Task 0, Task 0, Task 0, Task 0, Task 1, Task 1, Task 1, Task 1, Main, Main, Main, Main, Main]) =
     [Finished] \<and>
   hist (UpgradeCluster (exWorld (Inr exTwoMasters) [] [] []) ''1.2.3''
     [Task 0, Task 0, Task 0, Task 0, Task 0, Task 1, Task 1, Task 1, Task 1, Main, Main, Main, Main, Main]) =
     [(Main, CList),
      (Main, CUpdate \<lparr>Name = ''m0'', Kubelet = ''1.2.3'', ControlPlane = ''1.2.3'',
         NodeRef = Some ''node-m0''\<rparr>),
      (Main, CGet ''m0''), (Main, CNodeGet ''node-m0''),
      (Task 0, CGet ''w1''),
      (Task 0, CUpdate \<lparr>Name = ''w1'', Kubelet = ''1.2.3'', ControlPlane = [],
         NodeRef = Some ''node-w1''\<rparr>),
      (Task 0, CGet ''w1''), (Task 0, CNodeGet ''node-w1'')] \<and>
   coord (UpgradeCluster (exWorld (Inr exTwoMasters) [] [] []) ''1.2.3''
     [Task 0, Task 0, Task 0, Task 0, Task 0, Task 1, Task 1, Task 1, Task 1, Main, Main, Main, Main, Main]) =
     Returned None"
  by (simp add: ex_defs exTwoMasters_def run_defs)

section \<open>The order of the calls and the number of values sent\<close>

text \<open>
  Two further facts about every run with a control-plane machine. The calls of the
  calling goroutine, which end with the poll of the control plane, all come before the
  first call of a worker goroutine; whether that poll succeeded makes no difference.
  And the number of values sent on the channel is the number of goroutines that have
  finished: each goroutine sends once.
\<close>

lemma run_hist_tasks:
  "\<exists>new. hist (run w v sched s) = hist s @ new \<and> (\<forall>e \<in> set new. fst e \<noteq> Main)"
proof (induction sched arbitrary: s)
  case Nil
  show ?case by simp
next
  case (Cons a sched)
  have "\<exists>n1. hist (step w v a s) = hist s @ n1 \<and> (\<forall>e \<in> set n1. fst e \<noteq> Main)"
  proof (cases a)
    case Main
    with main_step_frame [of w s] show ?thesis by simp
  next
    case (Task i)
    with task_step_hist [of w v i s] show ?thesis by auto
  qed
  then obtain n1 where n1: "hist (step w v a s) = hist s @ n1" "\<forall>e \<in> set n1. fst e \<noteq> Main"
    by blast
  obtain n2 where n2: "hist (run w v sched (step w v a s)) = hist (step w v a s) @ n2"
    "\<forall>e \<in> set n2. fst e \<noteq> Main"
    using Cons.IH by blast
  from n1 n2 have "hist (run w v (a # sched) s) = hist s @ (n1 @ n2) \<and>
      (\<forall>e \<in> set (n1 @ n2). fst e \<noteq> Main)"
    by auto
  then show ?case by blast
qed

lemma workers_start_after_control_plane:
  assumes "machList w [] = Inr items" and "find (IsMaster w) items = Some master"
  shows "\<exists>before after. hist (UpgradeCluster w v sched) = before @ after \<and>
           (\<forall>e \<in> set before. fst e = Main) \<and> (\<forall>e \<in> set after. fst e \<noteq> Main)"
proof -
  obtain polls where polls: "pollCalls Main polls"
    and run: "UpgradeCluster w v sched =
       run w v sched (fanout w items None
         ((Main, CList) # (Main, CUpdate (master\<lparr>Kubelet := v, ControlPlane := v\<rparr>)) # polls))"
    using UpgradeCluster_master [OF assms] by blast
  let ?h = "(Main, CList) # (Main, CUpdate (master\<lparr>Kubelet := v, ControlPlane := v\<rparr>)) # polls"
  obtain new where "hist (UpgradeCluster w v sched) = hist (fanout w items None ?h) @ new"
    and new: "\<forall>e \<in> set new. fst e \<noteq> Main"
    unfolding run using run_hist_tasks by blast
  then have "hist (UpgradeCluster w v sched) = ?h @ new" by (simp add: fanout_def)
  with start_Main_only [OF polls] new show ?thesis by blast
qed

lemma one_value_for_each_finished_goroutine:
  assumes "machList w [] = Inr items" and "find (IsMaster w) items = Some master"
  shows "length (delivered (UpgradeCluster w v sched)) =
         length (filter (\<lambda>t. t = Finished) (tasks (UpgradeCluster w v sched)))"
proof -
  obtain polls where
    "UpgradeCluster w v sched =
       run w v sched (fanout w items None
         ((Main, CList) # (Main, CUpdate (master\<lparr>Kubelet := v, ControlPlane := v\<rparr>)) # polls))"
    using UpgradeCluster_master [OF assms] by blast
  then have "count_inv (length (workers w items)) (UpgradeCluster w v sched)"
    by (simp add: count_inv_run)
  then show ?thesis unfolding count_inv_def by blast
qed

end
